theory Spec2Isabelle
  imports Main
begin

section \<open>Web-Archiver backend (server.js): utility functions\<close>

text \<open>
  JavaScript strings are modelled as \<open>string\<close> (lists of characters, one per code
  unit).  \<open>startsWith\<close> is \<open>String.prototype.startsWith\<close>.
\<close>

definition startsWith :: "string \<Rightarrow> string \<Rightarrow> bool" where
  "startsWith s p = (take (length p) s = p)"

text \<open>
  \<open>sanitizeFilename\<close> is \<open>filename.replace(/[^a-z0-9.-]/gi, '_')\<close>: the class is
  negated, the flag \<open>i\<close> lets both cases of a letter through, the flag \<open>g\<close> replaces
  every match.  Without the flag \<open>u\<close> a character outside ASCII never folds to an ASCII
  letter, so the characters kept are exactly the ones listed in \<open>keptChars\<close>.
\<close>

definition keptChars :: "char list" where
  "keptChars = ''abcdefghijklmnopqrstuvwxyzABCDEFGHIJKLMNOPQRSTUVWXYZ0123456789.-''"

definition isKept :: "char \<Rightarrow> bool" where
  "isKept c = (c \<in> set keptChars)"

definition sanitizeFilename :: "string \<Rightarrow> string" where
  "sanitizeFilename filename = map (\<lambda>c. if isKept c then c else CHR ''_'') filename"

text \<open>
  \<open>s.split('/').pop()\<close>: the part of \<open>s\<close> after its last slash (all of \<open>s\<close> when it has
  none, the empty string when \<open>s\<close> ends in a slash).  \<open>path.basename\<close> is the same on
  the paths of this program, which never end in a slash.
\<close>

definition lastSegment :: "string \<Rightarrow> string" where
  "lastSegment s = rev (takeWhile (\<lambda>c. c \<noteq> CHR ''/'') (rev s))"

text \<open>
  The file name \<open>downloadResource\<close> derives from \<open>urlObj.pathname\<close> (line 63), and the
  one \<open>archivePage\<close> derives (line 186); \<open>x || 'page.html'\<close> replaces the empty string.
\<close>

definition downloadFilename :: "string \<Rightarrow> string" where
  "downloadFilename pathname =
     sanitizeFilename (if pathname = ''/'' then ''index.html'' else pathname)"

definition pageFilename :: "string \<Rightarrow> string" where
  "pageFilename pathname =
     sanitizeFilename
       (if pathname = ''/'' then ''index.html''
        else if lastSegment pathname = [] then ''page.html''
        else lastSegment pathname)"

text \<open>
  The characters a derived file name may contain, by their codes and apart from the
  sanitizer: the letters \<open>A\<close> to \<open>Z\<close> (65 to 90) and \<open>a\<close> to \<open>z\<close> (97 to 122), the digits
  (48 to 57), the dot, the hyphen and the underscore.
\<close>

definition isLetter :: "char \<Rightarrow> bool" where
  "isLetter c = (let n = (of_char c :: nat) in (65 \<le> n \<and> n \<le> 90) \<or> (97 \<le> n \<and> n \<le> 122))"

definition isDigit :: "char \<Rightarrow> bool" where
  "isDigit c = (let n = (of_char c :: nat) in 48 \<le> n \<and> n \<le> 57)"

definition isSafeChar :: "char \<Rightarrow> bool" where
  "isSafeChar c =
     (isLetter c \<or> isDigit c \<or> c = CHR ''.'' \<or> c = CHR ''-'' \<or> c = CHR ''_'')"


section \<open>The platform\<close>

text \<open>
  What the program takes from its runtime and from the network is a parameter of the
  model, gathered in one record:
  \<^item> \<open>parseUrl s\<close> is \<open>new URL(s)\<close>, \<open>None\<close> when the constructor throws, with the two
    properties the program reads;
  \<^item> \<open>resolveUrl href base\<close> is \<open>new URL(href, base).toString()\<close>, \<open>None\<close> on a throw;
  \<^item> \<open>pageGet url\<close> is the \<open>axios.get\<close> of \<open>archivePage\<close>: \<open>None\<close> when the promise
    rejects (network error, timeout, status outside 2xx), otherwise \<open>response.data\<close>;
  \<^item> \<open>oddTotal urls\<close>: the text line 253 stores for the pages at \<open>urls\<close> when the size of
    one of them is neither a natural number nor \<open>undefined\<close>; the model does not compute
    it;
  \<^item> \<open>assetGet url\<close> is the \<open>axios.get\<close> of \<open>downloadResource\<close>: the error message
    of a rejection, or the content type and \<open>response.data.length\<close>;
  \<^item> \<open>writeError p\<close>: the message of the error that \<open>fs.mkdir\<close> or \<open>fs.writeFile\<close>
    throws when the program writes the path \<open>p\<close>, \<open>None\<close> when the write succeeds;
  \<^item> \<open>settledBy url\<close>: the downloads started for the page \<open>url\<close> whose continuation
    has run by the time the page's asset array is read, in the order they ran (numbers
    into the list of downloads started);
  \<^item> \<open>clock url\<close>: \<open>new Date().toISOString()\<close> when the record of \<open>url\<close> is built;
  \<^item> \<open>generateId\<close>, \<open>now\<close>, \<open>dirname\<close>: the random id, the clock and \<open>__dirname\<close> of a
    request to create an archive.
\<close>

record url_parts =
  hostname :: string
  pathname :: string

record element =
  tag :: string
  attrs :: "(string \<times> string) list"

text \<open>
  \<open>response.data\<close> is the body as text, unless the text is valid JSON: the request of
  line 174 sets no \<open>responseType\<close>, and axios then hands over the parsed value.  So
  \<open>html.length\<close> (line 195) is a natural number for a text or an array, \<open>undefined\<close> for an
  object without such a property, and some other value for an object that has a property
  \<open>length\<close> of another kind.
\<close>

datatype jsvalue = Length nat | Undefined | Other

text \<open>
  A body that \<open>cheerio.load\<close> accepts: \<open>html.length\<close>, and the elements \<open>cheerio.load(html)\<close>
  finds, in document order.  \<open>$.html()\<close> gives the element list back as it stands at
  the time of the call.  A body on which \<open>cheerio.load\<close> throws, or on which reading
  \<open>html.length\<close> throws (\<open>null\<close>), is the response \<open>Throws\<close>: either way the \<open>catch\<close> of
  line 210 is entered before the page record is built.
\<close>

record html =
  hlength :: jsvalue
  elements :: "element list"

datatype response = Loads html | Throws

record world =
  parseUrl :: "string \<Rightarrow> url_parts option"
  resolveUrl :: "string \<Rightarrow> string \<Rightarrow> string option"
  pageGet :: "string \<Rightarrow> response option"
  assetGet :: "string \<Rightarrow> string + (string \<times> nat)"
  writeError :: "string \<Rightarrow> string option"
  settledBy :: "string \<Rightarrow> nat list"
  clock :: "string \<Rightarrow> string"
  oddTotal :: "string list \<Rightarrow> string"
  generateId :: string
  now :: string
  dirname :: string

definition writeFails :: "world \<Rightarrow> string \<Rightarrow> bool" where
  "writeFails w p = (writeError w p \<noteq> None)"

text \<open>
  \<open>path.join(__dirname, 'archives', archiveId)\<close>; an id is 32 hexadecimal digits, so
  joining is concatenation with separators.
\<close>

definition getArchiveDir :: "world \<Rightarrow> string \<Rightarrow> string" where
  "getArchiveDir w archiveId = dirname w @ ''/archives/'' @ archiveId"

definition isValidUrl :: "world \<Rightarrow> string \<Rightarrow> bool" where
  "isValidUrl w s = (case parseUrl w s of None \<Rightarrow> False | Some u \<Rightarrow> True)"

definition isSameDomain :: "world \<Rightarrow> string \<Rightarrow> string \<Rightarrow> bool" where
  "isSameDomain w url1 url2 =
     (case parseUrl w url1 of
        None \<Rightarrow> False
      | Some u1 \<Rightarrow>
          (case parseUrl w url2 of
             None \<Rightarrow> False
           | Some u2 \<Rightarrow> hostname u1 = hostname u2))"

section \<open>downloadResource\<close>

datatype download =
  Success (localPath: string) (contentType: string) (dsize: nat)
| Failure (message: string)

text \<open>
  The whole body is inside \<open>try\<close>, and the handler returns \<open>{success: false, ...}\<close>: a
  rejected request, a URL that does not parse and a failed write all end in \<open>Failure\<close>,
  and nothing is thrown to the caller.
\<close>

definition downloadResource :: "world \<Rightarrow> string \<Rightarrow> string \<Rightarrow> string \<Rightarrow> download" where
  "downloadResource w url archiveDir resourcePath =
     (case assetGet w url of
        Inl msg \<Rightarrow> Failure msg
      | Inr (ctype, len) \<Rightarrow>
          (case parseUrl w url of
             None \<Rightarrow> Failure ''Invalid URL''
           | Some urlObj \<Rightarrow>
               let filename = downloadFilename (pathname urlObj);
                   filePath = archiveDir @ ''/'' @ resourcePath @ ''/'' @ filename
               in (case writeError w filePath of
                     Some msg \<Rightarrow> Failure msg
                   | None \<Rightarrow> Success (resourcePath @ ''/'' @ filename) ctype len)))"

section \<open>processHtmlContent\<close>

datatype category = Css | Js | Image

datatype status = Downloaded | Failed

text \<open>
  An asset record is \<open>{type, url, status}\<close>.  The objects are built without a \<open>size\<close>
  property; \<open>asize\<close> is that property as the request handler reads it (\<open>asset.size\<close>),
  \<open>None\<close> when the object has none.
\<close>

record asset =
  atype :: category
  aurl :: string
  astatus :: status
  asize :: "nat option"

definition attr :: "element \<Rightarrow> string \<Rightarrow> string option" where
  "attr el name = map_of (attrs el) name"

fun updateAttr :: "string \<Rightarrow> string \<Rightarrow> (string \<times> string) list \<Rightarrow> (string \<times> string) list" where
  "updateAttr k v [] = [(k, v)]"
| "updateAttr k v ((k', v') # kvs) =
     (if k' = k then (k, v) # kvs else (k', v') # updateAttr k v kvs)"

definition setAttr :: "string \<Rightarrow> string \<Rightarrow> element \<Rightarrow> element" where
  "setAttr name v el = el\<lparr>attrs := updateAttr name v (attrs el)\<rparr>"

text \<open>The selectors \<open>a[href]\<close>, \<open>link[rel="stylesheet"]\<close>, \<open>script[src]\<close>, \<open>img[src]\<close>.\<close>

definition isAnchor :: "element \<Rightarrow> bool" where
  "isAnchor el = (tag el = ''a'' \<and> attr el ''href'' \<noteq> None)"

fun selects :: "category \<Rightarrow> element \<Rightarrow> bool" where
  "selects Css el = (tag el = ''link'' \<and> attr el ''rel'' = Some ''stylesheet'')"
| "selects Js el = (tag el = ''script'' \<and> attr el ''src'' \<noteq> None)"
| "selects Image el = (tag el = ''img'' \<and> attr el ''src'' \<noteq> None)"

fun attrName :: "category \<Rightarrow> string" where
  "attrName Css = ''href''"
| "attrName Js = ''src''"
| "attrName Image = ''src''"

fun subdir :: "category \<Rightarrow> string" where
  "subdir Css = ''css''"
| "subdir Js = ''js''"
| "subdir Image = ''images''"

text \<open>\<open>[...new Set(links)]\<close>: the first occurrence of each link, in the order of insertion.\<close>

definition newSet :: "'a list \<Rightarrow> 'a list" where
  "newSet xs = foldl (\<lambda>acc x. if x \<in> set acc then acc else acc @ [x]) [] xs"

text \<open>The callback of \<open>$('a[href]').each\<close> (lines 91 to 103), for one element.\<close>

definition linkOf :: "world \<Rightarrow> string \<Rightarrow> element \<Rightarrow> string option" where
  "linkOf w baseUrl el =
     (case attr el ''href'' of
        None \<Rightarrow> None
      | Some href \<Rightarrow>
          if href \<noteq> [] \<and> \<not> startsWith href ''#'' \<and> \<not> startsWith href ''mailto:''
             \<and> \<not> startsWith href ''tel:''
          then (case resolveUrl w href baseUrl of
                  None \<Rightarrow> None
                | Some fullUrl \<Rightarrow> if isSameDomain w fullUrl baseUrl then Some fullUrl else None)
          else None)"

definition extractLinks :: "world \<Rightarrow> string \<Rightarrow> element list \<Rightarrow> string list" where
  "extractLinks w baseUrl els = List.map_filter (linkOf w baseUrl) (filter isAnchor els)"

text \<open>
  The three asset loops pass an \<open>async\<close> callback to \<open>.each\<close>, which calls it for each
  selected element and drops the promise it returns.  A call runs up to its first
  \<open>await\<close>: it reads the attribute, resolves it and calls \<open>downloadResource\<close>, which
  itself runs up to \<open>await axios.get\<close>.  So by the time \<open>.each\<close> returns, a callback has
  either done nothing (no attribute value), or pushed a \<open>failed\<close> record (the \<open>catch\<close>,
  entered when \<open>new URL\<close> throws), or started a download whose continuation (lines 112
  to 115) is still to run.  \<open>pending\<close> is such a started download: the element's
  position in the document, the category and the resolved URL.
\<close>

record pending =
  pindex :: nat
  pcategory :: category
  pfullUrl :: string

definition startAsset :: "world \<Rightarrow> category \<Rightarrow> string \<Rightarrow> nat \<times> element \<Rightarrow> asset list \<times> pending list" where
  "startAsset w cat baseUrl ie =
     (case attr (snd ie) (attrName cat) of
        None \<Rightarrow> ([], [])
      | Some ref \<Rightarrow>
          if ref = [] then ([], [])
          else (case resolveUrl w ref baseUrl of
                  None \<Rightarrow> ([\<lparr>atype = cat, aurl = ref, astatus = Failed, asize = None\<rparr>], [])
                | Some fullUrl \<Rightarrow>
                    ([], [\<lparr>pindex = fst ie, pcategory = cat, pfullUrl = fullUrl\<rparr>])))"

definition startAssets :: "world \<Rightarrow> category \<Rightarrow> string \<Rightarrow> element list \<Rightarrow> asset list \<times> pending list" where
  "startAssets w cat baseUrl els =
     (let started = map (startAsset w cat baseUrl)
                      (filter (\<lambda>ie. selects cat (snd ie)) (zip [0..<length els] els))
      in (concat (map fst started), concat (map snd started)))"

text \<open>
  The value \<open>processHtmlContent\<close> returns, as it is at the \<open>return\<close>: the function has no
  \<open>await\<close> of its own, so no continuation of a started download has run.  The second
  component is the list of downloads still running, in the order they were started.
\<close>

record processed =
  processedHtml :: "element list"
  passets :: "asset list"
  plinks :: "string list"

definition processHtmlContent :: "world \<Rightarrow> html \<Rightarrow> string \<Rightarrow> string \<Rightarrow> processed \<times> pending list" where
  "processHtmlContent w page baseUrl archiveDir =
     (let els = elements page;
          links = extractLinks w baseUrl els;
          css = startAssets w Css baseUrl els;
          js = startAssets w Js baseUrl els;
          images = startAssets w Image baseUrl els
      in (\<lparr>processedHtml = els,
           passets = fst css @ fst js @ fst images,
           plinks = newSet links\<rparr>,
          snd css @ snd js @ snd images))"

text \<open>
  The objects a continuation still writes to after the return: the document \<open>$\<close> and the
  array \<open>assets\<close>.  \<open>resume\<close> is lines 112 to 115, run with the result of the download:
  on success the attribute is rewritten and a \<open>downloaded\<close> record pushed; otherwise
  nothing happens (the \<open>if\<close> has no \<open>else\<close>).
\<close>

record live =
  dom :: "element list"
  liveAssets :: "asset list"

definition resume :: "string \<Rightarrow> pending \<Rightarrow> download \<Rightarrow> live \<Rightarrow> live" where
  "resume archiveDir t res l =
     (case res of
        Failure msg \<Rightarrow> l
      | Success lp ctype len \<Rightarrow>
          \<lparr>dom = (dom l)[pindex t :=
                   setAttr (attrName (pcategory t))
                     (''/archives/'' @ lastSegment archiveDir @ ''/'' @ subdir (pcategory t)
                        @ ''/'' @ lastSegment lp)
                     (dom l ! pindex t)],
           liveAssets = liveAssets l @
             [\<lparr>atype = pcategory t, aurl = pfullUrl t, astatus = Downloaded, asize = None\<rparr>]\<rparr>)"

definition complete :: "world \<Rightarrow> string \<Rightarrow> pending \<Rightarrow> live \<Rightarrow> live" where
  "complete w archiveDir t l =
     resume archiveDir t (downloadResource w (pfullUrl t) archiveDir (subdir (pcategory t))) l"

text \<open>The state of \<open>$\<close> and \<open>assets\<close> once the downloads numbered \<open>done\<close> have completed.\<close>

definition afterDownloads :: "world \<Rightarrow> string \<Rightarrow> pending list \<Rightarrow> nat list \<Rightarrow> live \<Rightarrow> live" where
  "afterDownloads w archiveDir started done l =
     foldl (\<lambda>l i. complete w archiveDir (started ! i) l) l
       (filter (\<lambda>i. i < length started) (newSet done))"

section \<open>archivePage\<close>

datatype error = FetchError | DomError | InvalidUrl | StorageError

record page =
  purl :: string
  filename :: string
  psize :: jsvalue
  timestamp :: string

record crawl_result =
  pages :: "page list"
  assets :: "asset list"

definition emptyResult :: crawl_result where
  "emptyResult = \<lparr>pages = [], assets = []\<rparr>"

text \<open>
  Lines 174 to 198, the part of the \<open>try\<close> block before the loop: fetch, process, save.
  Each throw is a value \<open>Inl\<close>; for a response that \<open>Throws\<close> it is \<open>DomError\<close>.  The markup written on line 190 is \<open>processedHtml\<close>, the
  string taken at the return of \<open>processHtmlContent\<close>.  The asset list is the array
  \<open>assets\<close> itself (line 198 keeps the reference), so it is given as the caller finds it
  when it reads it, with the records that the downloads completed by then have pushed;
  the model reads it once for each page.
\<close>

definition archiveOne :: "world \<Rightarrow> string \<Rightarrow> string \<Rightarrow> error + (page \<times> asset list \<times> string list)" where
  "archiveOne w url archiveDir =
     (case pageGet w url of
        None \<Rightarrow> Inl FetchError
      | Some Throws \<Rightarrow> Inl DomError
      | Some (Loads body) \<Rightarrow>
          (case processHtmlContent w body url archiveDir of
             (pr, started) \<Rightarrow>
               (case parseUrl w url of
                  None \<Rightarrow> Inl InvalidUrl
                | Some urlObj \<Rightarrow>
                    let fname = pageFilename (pathname urlObj);
                        htmlPath = archiveDir @ ''/pages/'' @ fname
                    in if writeFails w htmlPath then Inl StorageError
                       else Inr (\<lparr>purl = url, filename = fname, psize = hlength body,
                                   timestamp = clock w url\<rparr>,
                                 liveAssets (afterDownloads w archiveDir started (settledBy w url)
                                    \<lparr>dom = processedHtml pr, liveAssets = passets pr\<rparr>),
                                 plinks pr))))"

text \<open>
  The state of one crawl run: the set \<open>visited\<close>, and two traces the model keeps of what
  the run does.  \<open>fetched\<close> lists, in order, the calls that pass the guard of line 165:
  the URL, which line 170 logs and line 174 hands to \<open>axios.get\<close>, and the
  \<open>currentDepth\<close> logged with it.  \<open>calls\<close> lists the recursive calls of line 203 as
  (page, link, depth passed to the call).
\<close>

record crawl_state =
  visited :: "string set"
  fetched :: "(string \<times> nat) list"
  calls :: "(string \<times> string \<times> nat) list"

definition freshState :: crawl_state where
  "freshState = \<lparr>visited = {}, fetched = [], calls = []\<rparr>"

text \<open>
  \<open>archivePage\<close>, with the \<open>for\<close> loop of lines 202 to 206 as \<open>crawlLinks\<close>: the loop
  awaits each call before the next, so the state one call leaves is the state the next
  one starts from.  The \<open>catch\<close> of line 210 returns the empty result.
\<close>

function archivePage :: "world \<Rightarrow> string \<Rightarrow> string \<Rightarrow> crawl_state \<Rightarrow> nat \<Rightarrow> nat \<Rightarrow> crawl_result \<times> crawl_state"
  and crawlLinks :: "world \<Rightarrow> string \<Rightarrow> string list \<Rightarrow> string \<Rightarrow> crawl_state \<Rightarrow> nat \<Rightarrow> nat \<Rightarrow> crawl_result \<Rightarrow> crawl_result \<times> crawl_state"
  where
  "archivePage w url archiveDir s maxDepth currentDepth =
     (if url \<in> visited s \<or> currentDepth > maxDepth then (emptyResult, s)
      else
        let s1 = s\<lparr>visited := insert url (visited s)\<rparr>;
            s2 = s1\<lparr>fetched := fetched s1 @ [(url, currentDepth)]\<rparr>
        in (case archiveOne w url archiveDir of
              Inl err \<Rightarrow> (emptyResult, s2)
            | Inr (pg, as, ls) \<Rightarrow>
                if currentDepth < maxDepth
                then crawlLinks w url (take 10 ls) archiveDir s2 maxDepth currentDepth
                       \<lparr>pages = [pg], assets = as\<rparr>
                else (\<lparr>pages = [pg], assets = as\<rparr>, s2)))"
| "crawlLinks w url [] archiveDir s maxDepth currentDepth acc = (acc, s)"
| "crawlLinks w url (link # rest) archiveDir s maxDepth currentDepth acc =
     (case archivePage w link archiveDir
             (s\<lparr>calls := calls s @ [(url, link, currentDepth + 1)]\<rparr>)
             maxDepth (currentDepth + 1) of
        (r, s') \<Rightarrow>
          crawlLinks w url rest archiveDir s' maxDepth currentDepth
            \<lparr>pages = pages acc @ pages r, assets = assets acc @ assets r\<rparr>)"
  by pat_completeness auto
termination
  by (relation "inv_image (less_than <*lex*> less_than)
        (\<lambda>x. case x of
           Inl (w, url, archiveDir, s, maxDepth, currentDepth) \<Rightarrow>
             (if maxDepth < currentDepth then 0 else 2 * (maxDepth - currentDepth) + 2, 0)
         | Inr (w, url, ls, archiveDir, s, maxDepth, currentDepth, acc) \<Rightarrow>
             (2 * (maxDepth - currentDepth) + 1, length ls))") auto

text \<open>One link step of the crawl: the links the Processor returns for the page at \<open>u\<close>.\<close>

definition discovered :: "world \<Rightarrow> string \<Rightarrow> string \<Rightarrow> string list" where
  "discovered w archiveDir u =
     (case archiveOne w u archiveDir of Inl err \<Rightarrow> [] | Inr (pg, as, ls) \<Rightarrow> ls)"

fun chain :: "world \<Rightarrow> string \<Rightarrow> nat \<Rightarrow> string \<Rightarrow> string \<Rightarrow> bool" where
  "chain w archiveDir 0 u v = (u = v)"
| "chain w archiveDir (Suc n) u v =
     list_ex (\<lambda>x. chain w archiveDir n x v) (discovered w archiveDir u)"

section \<open>The request handlers\<close>

record archive =
  archiveId :: string
  archiveUrl :: string
  archiveTimestamp :: string
  archiveStatus :: string
  pagesArchived :: nat
  assetsArchived :: nat
  totalSize :: string
  archivePages :: "page list"
  archiveAssets :: "asset list"

datatype reply =
  ArchiveJson archive
| MessageJson string
| ErrorJson nat string










text \<open>
  The file system, for the handler that deletes: the paths that exist.  \<open>rmdirNode\<close> is
  \<open>fs.rmdir(dir, {recursive: true})\<close> as Node.js documents it from version 16 on (the
  \<open>package.json\<close> that \<open>setup.sh\<close> writes asks for version 18.17 or later): the call
  rejects with \<open>ENOENT\<close> when the path does not exist, and otherwise removes the
  directory and everything below it.
\<close>

datatype fs_error = ENOENT | EACCES

type_synonym fsys = "string list"

definition below :: "string \<Rightarrow> string \<Rightarrow> bool" where
  "below dir p = (p = dir \<or> startsWith p (dir @ ''/''))"

definition rmdirNode :: "fsys \<Rightarrow> string \<Rightarrow> fs_error option \<times> fsys" where
  "rmdirNode fs dir =
     (if dir \<in> set fs then (None, filter (\<lambda>p. \<not> below dir p) fs) else (Some ENOENT, fs))"

fun findIndex :: "('a \<Rightarrow> bool) \<Rightarrow> 'a list \<Rightarrow> nat option" where
  "findIndex P [] = None"
| "findIndex P (x # xs) =
     (if P x then Some 0 else (case findIndex P xs of None \<Rightarrow> None | Some i \<Rightarrow> Some (Suc i)))"

definition splice1 :: "nat \<Rightarrow> 'a list \<Rightarrow> 'a list" where
  "splice1 i xs = take i xs @ drop (Suc i) xs"

text \<open>
  \<open>app.delete('/api/archives/:id')\<close>, over any removal primitive \<open>rm\<close> (its error, if it
  throws, and the file system it leaves): the reply, the list \<open>archives\<close> and the file
  system after the request.
\<close>

definition deleteArchive ::
  "('fs \<Rightarrow> string \<Rightarrow> fs_error option \<times> 'fs) \<Rightarrow> world \<Rightarrow> string \<Rightarrow> archive list \<Rightarrow> 'fs
     \<Rightarrow> reply \<times> archive list \<times> 'fs" where
  "deleteArchive rm w ident archives fs =
     (case findIndex (\<lambda>a. archiveId a = ident) archives of
        None \<Rightarrow> (ErrorJson 404 ''Archive not found'', archives, fs)
      | Some archiveIndex \<Rightarrow>
          (case rm fs (getArchiveDir w ident) of
             (Some err, fs') \<Rightarrow> (ErrorJson 500 ''Failed to delete archive'', archives, fs')
           | (None, fs') \<Rightarrow>
               (MessageJson ''Archive deleted successfully'', splice1 archiveIndex archives, fs')))"

section \<open>Notions the statements use\<close>

text \<open>
  \<open>mark\<close> is the effect of lines 169 to 174 on the state.  A state is \<open>traceOk\<close> when
  every URL fetched so far is in \<open>visited\<close> and none was fetched twice.
\<close>

definition mark :: "string \<Rightarrow> nat \<Rightarrow> crawl_state \<Rightarrow> crawl_state" where
  "mark url d s = s\<lparr>visited := insert url (visited s), fetched := fetched s @ [(url, d)]\<rparr>"

definition traceOk :: "crawl_state \<Rightarrow> bool" where
  "traceOk s = (fst ` set (fetched s) \<subseteq> visited s \<and> distinct (map fst (fetched s)))"

text \<open>
  A recursive call (page \<open>q\<close>, link \<open>c\<close>, depth \<open>k\<close>) is in order when \<open>q\<close> itself was
  fetched at depth \<open>k - 1\<close>, below the limit, and \<open>c\<close> is one of the first ten links
  found on \<open>q\<close>.  \<open>callsFrom q\<close> picks the calls made from the page \<open>q\<close>.
\<close>

definition entryOk :: "world \<Rightarrow> string \<Rightarrow> nat \<Rightarrow> crawl_state \<Rightarrow> string \<times> string \<times> nat \<Rightarrow> bool" where
  "entryOk w dir m s e =
     (case e of (q, c, k) \<Rightarrow>
        1 \<le> k \<and> k \<le> m \<and> (q, k - 1) \<in> set (fetched s) \<and> q \<in> visited s
        \<and> c \<in> set (take 10 (discovered w dir q)))"

definition callsFrom :: "string \<Rightarrow> (string \<times> string \<times> nat) list \<Rightarrow> (string \<times> string \<times> nat) list" where
  "callsFrom q cs = filter (\<lambda>e. fst e = q) cs"

text \<open>
  The link list as the specification words it: the targets that are not fragment-only
  and not \<open>mailto:\<close> or \<open>tel:\<close>, resolved against the page, with the page's hostname.
\<close>

definition claimedLinks :: "world \<Rightarrow> html \<Rightarrow> string \<Rightarrow> string list" where
  "claimedLinks w body baseUrl =
     List.map_filter
       (\<lambda>el. case attr el ''href'' of
               None \<Rightarrow> None
             | Some href \<Rightarrow>
                 if \<not> startsWith href ''#'' \<and> \<not> startsWith href ''mailto:''
                    \<and> \<not> startsWith href ''tel:''
                 then (case resolveUrl w href baseUrl of
                         None \<Rightarrow> None
                       | Some fullUrl \<Rightarrow>
                           if isSameDomain w fullUrl baseUrl then Some fullUrl else None)
                 else None)
       (filter isAnchor (elements body))"





section \<open>A sample site\<close>

text \<open>
  A small site to run the model on.  The page at \<open>http://a.com/\<close> links to \<open>/b\<close> (twice),
  to \<open>/c\<close>, to another host, to a fragment, to the empty reference and to a mail address;
  it has a stylesheet that downloads, an image that answers 404 and a script whose
  reference does not parse.  Page \<open>/b\<close> links back to the root and to \<open>/c\<close>; fetching
  \<open>/c\<close> fails.  No page links to \<open>/data\<close>, whose body is the JSON text of an object.
  The tables list what \<open>new URL\<close> gives on the strings that occur.
\<close>

definition siteUrls :: "(string \<times> url_parts) list" where
  "siteUrls =
     [(''http://a.com/'', \<lparr>hostname = ''a.com'', pathname = ''/''\<rparr>),
      (''http://a.com/b'', \<lparr>hostname = ''a.com'', pathname = ''/b''\<rparr>),
      (''http://a.com/#top'', \<lparr>hostname = ''a.com'', pathname = ''/''\<rparr>),
      (''http://a.com/c'', \<lparr>hostname = ''a.com'', pathname = ''/c''\<rparr>),
      (''http://a.com/data'', \<lparr>hostname = ''a.com'', pathname = ''/data''\<rparr>),
      (''http://a.com/s.css'', \<lparr>hostname = ''a.com'', pathname = ''/s.css''\<rparr>),
      (''http://a.com/i.png'', \<lparr>hostname = ''a.com'', pathname = ''/i.png''\<rparr>),
      (''http://b.org/x'', \<lparr>hostname = ''b.org'', pathname = ''/x''\<rparr>),
      (''mailto:me@a.com'', \<lparr>hostname = '''', pathname = ''me@a.com''\<rparr>)]"

definition siteRefs :: "((string \<times> string) \<times> string) list" where
  "siteRefs =
     [((''/b'', ''http://a.com/''), ''http://a.com/b''),
      ((''/c'', ''http://a.com/''), ''http://a.com/c''),
      (('''', ''http://a.com/''), ''http://a.com/''),
      ((''#top'', ''http://a.com/''), ''http://a.com/#top''),
      ((''http://b.org/x'', ''http://a.com/''), ''http://b.org/x''),
      ((''mailto:me@a.com'', ''http://a.com/''), ''mailto:me@a.com''),
      ((''/s.css'', ''http://a.com/''), ''http://a.com/s.css''),
      ((''/i.png'', ''http://a.com/''), ''http://a.com/i.png''),
      ((''/'', ''http://a.com/b''), ''http://a.com/''),
      ((''/c'', ''http://a.com/b''), ''http://a.com/c'')]"

definition rootPage :: html where
  "rootPage = \<lparr>hlength = Length 2000, elements =
     [\<lparr>tag = ''a'', attrs = [(''href'', ''/b'')]\<rparr>,
      \<lparr>tag = ''a'', attrs = [(''href'', ''http://b.org/x'')]\<rparr>,
      \<lparr>tag = ''a'', attrs = [(''href'', ''#top'')]\<rparr>,
      \<lparr>tag = ''a'', attrs = [(''href'', '''')]\<rparr>,
      \<lparr>tag = ''a'', attrs = [(''href'', ''/b'')]\<rparr>,
      \<lparr>tag = ''a'', attrs = [(''href'', ''mailto:me@a.com'')]\<rparr>,
      \<lparr>tag = ''link'', attrs = [(''rel'', ''stylesheet''), (''href'', ''/s.css'')]\<rparr>,
      \<lparr>tag = ''img'', attrs = [(''src'', ''/i.png'')]\<rparr>,
      \<lparr>tag = ''script'', attrs = [(''src'', ''http://[bad'')]\<rparr>,
      \<lparr>tag = ''a'', attrs = [(''href'', ''/c'')]\<rparr>]\<rparr>"

definition pageB :: html where
  "pageB = \<lparr>hlength = Length 100, elements =
     [\<lparr>tag = ''a'', attrs = [(''href'', ''/'')]\<rparr>,
      \<lparr>tag = ''a'', attrs = [(''href'', ''/c'')]\<rparr>]\<rparr>"

definition dataPage :: html where
  "dataPage = \<lparr>hlength = Undefined, elements = []\<rparr>"

definition site :: world where
  "site = \<lparr>parseUrl = map_of siteUrls,
           resolveUrl = (\<lambda>href base. map_of siteRefs (href, base)),
           pageGet = map_of [(''http://a.com/'', Loads rootPage), (''http://a.com/b'', Loads pageB),
                             (''http://a.com/data'', Loads dataPage)],
           assetGet = (\<lambda>u. if u = ''http://a.com/s.css'' then Inr (''text/css'', 300)
                              else Inl ''Request failed with status code 404''),
           writeError = (\<lambda>p. None),
           settledBy = (\<lambda>u. [0, 1]),
           clock = (\<lambda>u. ''2024-01-01T00:00:00.000Z''),
           oddTotal = (\<lambda>urls. ''KB''),
           generateId = ''0123456789abcdef0123456789abcdef'',
           now = ''2024-01-01T00:00:00.000Z'',
           dirname = ''/srv''\<rparr>"

definition siteDir :: string where
  "siteDir = ''/srv/archives/0123456789abcdef0123456789abcdef''"

text \<open>
  The two downloads the root page starts, the record its script leaves, the document and
  the asset array at the return of \<open>processHtmlContent\<close>, the archive the crawl of the
  site gives, and the archive made of the page \<open>/data\<close> alone.
\<close>

definition cssTask :: pending where
  "cssTask = \<lparr>pindex = 6, pcategory = Css, pfullUrl = ''http://a.com/s.css''\<rparr>"

definition imgTask :: pending where
  "imgTask = \<lparr>pindex = 7, pcategory = Image, pfullUrl = ''http://a.com/i.png''\<rparr>"

definition badScript :: asset where
  "badScript = \<lparr>atype = Js, aurl = ''http://[bad'', astatus = Failed, asize = None\<rparr>"

definition atReturn :: live where
  "atReturn = \<lparr>dom = elements rootPage, liveAssets = [badScript]\<rparr>"

definition siteArchive :: archive where
  "siteArchive =
     \<lparr>archiveId = ''0123456789abcdef0123456789abcdef'',
      archiveUrl = ''http://a.com/'',
      archiveTimestamp = ''2024-01-01T00:00:00.000Z'',
      archiveStatus = ''completed'', pagesArchived = 2, assetsArchived = 2,
      totalSize = ''2KB'',
      archivePages =
        [\<lparr>purl = ''http://a.com/'', filename = ''index.html'', psize = Length 2000,
            timestamp = ''2024-01-01T00:00:00.000Z''\<rparr>,
         \<lparr>purl = ''http://a.com/b'', filename = ''b'', psize = Length 100,
            timestamp = ''2024-01-01T00:00:00.000Z''\<rparr>],
      archiveAssets =
        [\<lparr>atype = Js, aurl = ''http://[bad'', astatus = Failed, asize = None\<rparr>,
         \<lparr>atype = Css, aurl = ''http://a.com/s.css'', astatus = Downloaded, asize = None\<rparr>]\<rparr>"


text \<open>
  A file tree that holds this archive beside a directory whose name extends the id, and
  a removal primitive that always fails.
\<close>

definition siteFiles :: fsys where
  "siteFiles =
     [''/srv/archives'',
      ''/srv/archives/0123456789abcdef0123456789abcdef'',
      ''/srv/archives/0123456789abcdef0123456789abcdef/metadata.json'',
      ''/srv/archives/0123456789abcdef0123456789abcdef/pages'',
      ''/srv/archives/0123456789abcdef0123456789abcdef/pages/index.html'',
      ''/srv/archives/0123456789abcdef0123456789abcdefg'']"

definition denyRm :: "fsys \<Rightarrow> string \<Rightarrow> fs_error option \<times> fsys" where
  "denyRm fs dir = (Some EACCES, fs)"

section \<open>File names\<close>

text \<open>The characters the sanitizer keeps are the letters, the digits, the dot and the hyphen.\<close>

lemma upper_codes: "map char_of [65..<91::nat] = ''ABCDEFGHIJKLMNOPQRSTUVWXYZ''"
  by code_simp

lemma lower_codes: "map char_of [97..<123::nat] = ''abcdefghijklmnopqrstuvwxyz''"
  by code_simp

lemma digit_codes: "map char_of [48..<58::nat] = ''0123456789''"
  by code_simp

lemma in_codes:
  assumes "a \<le> (of_char c :: nat)" and "(of_char c :: nat) < b"
  shows "c \<in> set (map char_of [a..<b])"
proof -
  have "(of_char c :: nat) \<in> set [a..<b]" using assms by simp
  then have "char_of (of_char c :: nat) \<in> char_of ` set [a..<b]" by (rule imageI)
  then show ?thesis by simp
qed

lemma kept_are_class:
  "list_all (\<lambda>c. isLetter c \<or> isDigit c \<or> c = CHR ''.'' \<or> c = CHR ''-'') keptChars"
  by (simp add: keptChars_def isLetter_def isDigit_def)

lemma isKept_class:
  "isKept c = (isLetter c \<or> isDigit c \<or> c = CHR ''.'' \<or> c = CHR ''-'')"
proof
  assume "isKept c"
  then show "isLetter c \<or> isDigit c \<or> c = CHR ''.'' \<or> c = CHR ''-''"
    using kept_are_class by (simp add: isKept_def list_all_iff)
next
  assume a: "isLetter c \<or> isDigit c \<or> c = CHR ''.'' \<or> c = CHR ''-''"
  have u: "set ''ABCDEFGHIJKLMNOPQRSTUVWXYZ'' \<subseteq> set keptChars"
    and l: "set ''abcdefghijklmnopqrstuvwxyz'' \<subseteq> set keptChars"
    and d: "set ''0123456789'' \<subseteq> set keptChars"
    and o: "CHR ''.'' \<in> set keptChars" "CHR ''-'' \<in> set keptChars"
    by (simp_all add: keptChars_def)
  from a consider "65 \<le> (of_char c :: nat) \<and> (of_char c :: nat) < 91"
    | "97 \<le> (of_char c :: nat) \<and> (of_char c :: nat) < 123"
    | "48 \<le> (of_char c :: nat) \<and> (of_char c :: nat) < 58"
    | "c = CHR ''.''" | "c = CHR ''-''"
    by (auto simp: isLetter_def isDigit_def Let_def)
  then show "isKept c"
  proof cases
    case 1
    then have "c \<in> set (map char_of [65..<91::nat])" by (simp only: in_codes)
    with u show ?thesis unfolding upper_codes isKept_def by blast
  next
    case 2
    then have "c \<in> set (map char_of [97..<123::nat])" by (simp only: in_codes)
    with l show ?thesis unfolding lower_codes isKept_def by blast
  next
    case 3
    then have "c \<in> set (map char_of [48..<58::nat])" by (simp only: in_codes)
    with d show ?thesis unfolding digit_codes isKept_def by blast
  next
    case 4
    with o show ?thesis by (simp add: isKept_def)
  next
    case 5
    with o show ?thesis by (simp add: isKept_def)
  qed
qed

lemma sanitizeFilename_safe: "list_all isSafeChar (sanitizeFilename s)"
  by (induction s) (simp_all add: sanitizeFilename_def isSafeChar_def isKept_class)

lemma sanitize_index_html: "sanitizeFilename ''index.html'' = ''index.html''"
  by (simp add: sanitizeFilename_def isKept_def keptChars_def)

text \<open>
  Claim C8.  Every file name derived for a downloaded asset or a persisted page consists
  of letters, digits, dots, hyphens and underscores only; sanitising keeps the length,
  keeps each letter, digit, dot and hyphen and puts an underscore in the place of any
  other character; the root path \<open>/\<close> gives \<open>index.html\<close> in both derivations.
\<close>

theorem filenames_safe:
  "list_all isSafeChar (downloadFilename pn)
   \<and> list_all isSafeChar (pageFilename pn)
   \<and> length (sanitizeFilename s) = length s
   \<and> (\<forall>i < length s. sanitizeFilename s ! i =
         (if isLetter (s ! i) \<or> isDigit (s ! i) \<or> s ! i = CHR ''.'' \<or> s ! i = CHR ''-''
          then s ! i else CHR ''_''))
   \<and> downloadFilename ''/'' = ''index.html''
   \<and> pageFilename ''/'' = ''index.html''"
proof -
  have nth: "\<forall>i < length s. sanitizeFilename s ! i =
         (if isLetter (s ! i) \<or> isDigit (s ! i) \<or> s ! i = CHR ''.'' \<or> s ! i = CHR ''-''
          then s ! i else CHR ''_'')"
    by (simp add: sanitizeFilename_def isKept_class)
  have len: "length (sanitizeFilename s) = length s"
    by (simp add: sanitizeFilename_def)
  have d: "list_all isSafeChar (downloadFilename pn)"
    unfolding downloadFilename_def by (rule sanitizeFilename_safe)
  have p: "list_all isSafeChar (pageFilename pn)"
    unfolding pageFilename_def by (rule sanitizeFilename_safe)
  have d0: "downloadFilename ''/'' = ''index.html''"
    by (simp add: downloadFilename_def sanitize_index_html)
  have p0: "pageFilename ''/'' = ''index.html''"
    by (simp add: pageFilename_def sanitize_index_html)
  from d p len nth d0 p0 show ?thesis by blast
qed

theorem filenames_safe_witness:
  "downloadFilename ''/css/my style.css'' = ''_css_my_style.css''
   \<and> pageFilename ''/docs/a b.html'' = ''a_b.html''
   \<and> pageFilename ''/docs/'' = ''page.html''
   \<and> list_all isSafeChar ''_css_my_style.css''
   \<and> \<not> isSafeChar (CHR '' '') \<and> \<not> isSafeChar (CHR ''/'') \<and> \<not> isSafeChar (CHR ''~'')
   \<and> sanitizeFilename ''a~b'' ! 1 = CHR ''_''"
proof -
  note t = filenames_safe [of "''/css/my style.css''" "''a~b''"]
  have n: "\<not> isLetter (CHR ''~'') \<and> \<not> isDigit (CHR ''~'')"
    by (simp add: isLetter_def isDigit_def)
  have "sanitizeFilename ''a~b'' ! 1 =
      (if isLetter (''a~b'' ! 1) \<or> isDigit (''a~b'' ! 1) \<or> ''a~b'' ! 1 = CHR ''.''
          \<or> ''a~b'' ! 1 = CHR ''-'' then ''a~b'' ! 1 else CHR ''_'')"
    using t by simp
  then have 1: "sanitizeFilename ''a~b'' ! 1 = CHR ''_''" using n by simp
  have e: "downloadFilename ''/css/my style.css'' = ''_css_my_style.css''"
    by (simp add: downloadFilename_def sanitizeFilename_def isKept_def keptChars_def)
  have "list_all isSafeChar (downloadFilename ''/css/my style.css'')" using t by blast
  then have 2: "list_all isSafeChar ''_css_my_style.css''" unfolding e .
  have 3: "pageFilename ''/docs/a b.html'' = ''a_b.html''" "pageFilename ''/docs/'' = ''page.html''"
    by (simp_all add: pageFilename_def sanitizeFilename_def lastSegment_def isKept_def keptChars_def)
  have 4: "\<not> isSafeChar (CHR '' '') \<and> \<not> isSafeChar (CHR ''/'') \<and> \<not> isSafeChar (CHR ''~'')"
    by (simp add: isSafeChar_def isLetter_def isDigit_def)
  from e 1 2 3 4 show ?thesis by blast
qed

section \<open>The links the Processor returns\<close>

lemma set_foldl_newSet:
  "set (foldl (\<lambda>acc x. if x \<in> set acc then acc else acc @ [x]) a xs) = set a \<union> set xs"
  by (induction xs arbitrary: a) auto

lemma distinct_foldl_newSet:
  "distinct a \<Longrightarrow> distinct (foldl (\<lambda>acc x. if x \<in> set acc then acc else acc @ [x]) a xs)"
  by (induction xs arbitrary: a) auto

lemma set_newSet: "set (newSet xs) = set xs"
  by (simp add: newSet_def set_foldl_newSet)

lemma distinct_newSet: "distinct (newSet xs)"
  by (simp add: newSet_def distinct_foldl_newSet)

lemma plinks_process:
  "plinks (fst (processHtmlContent w body base dir)) = newSet (extractLinks w base (elements body))"
  by (simp add: processHtmlContent_def Let_def)

lemma linkOf_Some:
  "linkOf w base el = Some u \<longleftrightarrow>
     (\<exists>href. attr el ''href'' = Some href \<and> href \<noteq> [] \<and> \<not> startsWith href ''#''
        \<and> \<not> startsWith href ''mailto:'' \<and> \<not> startsWith href ''tel:''
        \<and> resolveUrl w href base = Some u \<and> isSameDomain w u base)"
  by (auto simp: linkOf_def split: option.splits if_splits)

lemma set_extractLinks:
  "set (extractLinks w base els) = {u. \<exists>el \<in> set els. isAnchor el \<and> linkOf w base el = Some u}"
  by (induction els) (auto simp: extractLinks_def split: option.splits)

lemma isSameDomain_iff:
  "isSameDomain w a b \<longleftrightarrow>
     (\<exists>ua ub. parseUrl w a = Some ua \<and> parseUrl w b = Some ub \<and> hostname ua = hostname ub)"
  by (auto simp: isSameDomain_def split: option.splits)

lemma isSameDomain_trans:
  "isSameDomain w a b \<Longrightarrow> isSameDomain w b c \<Longrightarrow> isSameDomain w a c"
  by (auto simp: isSameDomain_def split: option.splits)

lemma isSameDomain_refl: "isValidUrl w a \<Longrightarrow> isSameDomain w a a"
  by (auto simp: isSameDomain_def isValidUrl_def split: option.splits)

section \<open>The assets the Processor returns\<close>

text \<open>
  Whatever the downloads do, the markup returned is the markup received, and a download
  that fails leaves the document and the asset array as they were.
\<close>

lemma processedHtml_unchanged:
  "processedHtml (fst (processHtmlContent w body base dir)) = elements body"
  by (simp add: processHtmlContent_def Let_def)

lemma resume_Failure: "resume dir t (Failure msg) l = l"
  by (simp add: resume_def)

text \<open>
  Claim C2 (the Processor waits for every download it starts, so that every asset
  recorded as successful has its attribute rewritten in the markup returned).  On the
  sample site the code does otherwise: \<open>processHtmlContent\<close> returns while the downloads
  of the stylesheet and of the image are still running.  The markup it returns still
  refers to \<open>/s.css\<close>, and its asset list holds the record of the script only.  The
  download of the stylesheet succeeds; when its continuation runs, it pushes a
  \<open>downloaded\<close> record onto the array already returned and rewrites the attribute in the
  document, after the markup was serialised.
\<close>

theorem processor_returns_early:
  "processHtmlContent site rootPage ''http://a.com/'' siteDir =
     (\<lparr>processedHtml = elements rootPage, passets = [badScript],
       plinks = [''http://a.com/b'', ''http://a.com/c'']\<rparr>,
      [cssTask, imgTask])
   \<and> attr (elements rootPage ! 6) ''href'' = Some ''/s.css''
   \<and> downloadResource site ''http://a.com/s.css'' siteDir ''css'' =
       Success ''css/_s.css'' ''text/css'' 300
   \<and> liveAssets (complete site siteDir cssTask atReturn) =
       [badScript,
        \<lparr>atype = Css, aurl = ''http://a.com/s.css'', astatus = Downloaded, asize = None\<rparr>]
   \<and> attr (dom (complete site siteDir cssTask atReturn) ! 6) ''href'' =
       Some ''/archives/0123456789abcdef0123456789abcdef/css/_s.css''"
  by code_simp

text \<open>
  Claim C5 (a failed download gives a \<open>failed\<close> asset record, keeps the remote URL and
  does not abort the page).  On the sample site the download of the image fails with
  status 404: \<open>downloadResource\<close> returns the failure as a value, the continuation does
  nothing with it, and no record of the image is ever pushed, neither once both downloads
  have completed nor in the result of the crawl.  The only \<open>failed\<close> record is the one
  of the script, whose reference did not parse.
\<close>

theorem failed_download_not_recorded:
  "snd (processHtmlContent site rootPage ''http://a.com/'' siteDir) = [cssTask, imgTask]
   \<and> downloadResource site ''http://a.com/i.png'' siteDir ''images'' =
       Failure ''Request failed with status code 404''
   \<and> complete site siteDir imgTask atReturn = atReturn
   \<and> liveAssets (afterDownloads site siteDir [cssTask, imgTask] [0, 1] atReturn) =
       [badScript,
        \<lparr>atype = Css, aurl = ''http://a.com/s.css'', astatus = Downloaded, asize = None\<rparr>]
   \<and> filter (\<lambda>a. aurl a = ''http://a.com/i.png'')
        (assets (fst (archivePage site ''http://a.com/'' siteDir freshState 2 0))) = []"
  by code_simp

section \<open>The crawl\<close>

declare archivePage.simps [simp del]

lemma archivePage_skip:
  "url \<in> visited s \<or> m < d \<Longrightarrow> archivePage w url dir s m d = (emptyResult, s)"
  by (simp add: archivePage.simps)

lemma archivePage_fail:
  "\<not> (url \<in> visited s \<or> m < d) \<Longrightarrow> archiveOne w url dir = Inl e
   \<Longrightarrow> archivePage w url dir s m d = (emptyResult, mark url d s)"
  by (simp add: archivePage.simps mark_def)

lemma archivePage_leaf:
  "\<not> (url \<in> visited s \<or> m < d) \<Longrightarrow> archiveOne w url dir = Inr (pg, as, ls) \<Longrightarrow> \<not> d < m
   \<Longrightarrow> archivePage w url dir s m d = (\<lparr>pages = [pg], assets = as\<rparr>, mark url d s)"
  by (simp add: archivePage.simps mark_def)

lemma archivePage_node:
  "\<not> (url \<in> visited s \<or> m < d) \<Longrightarrow> archiveOne w url dir = Inr (pg, as, ls) \<Longrightarrow> d < m
   \<Longrightarrow> archivePage w url dir s m d =
       crawlLinks w url (take 10 ls) dir (mark url d s) m d \<lparr>pages = [pg], assets = as\<rparr>"
  by (simp add: archivePage.simps mark_def)

lemma crawlLinks_cons:
  "archivePage w link dir (s\<lparr>calls := calls s @ [(url, link, d + 1)]\<rparr>) m (d + 1) = (r, s')
   \<Longrightarrow> crawlLinks w url (link # rest) dir s m d acc =
       crawlLinks w url rest dir s' m d \<lparr>pages = pages acc @ pages r, assets = assets acc @ assets r\<rparr>"
  by simp

text \<open>
  An induction rule for the crawl with one case for each way a call can go: the guard of
  line 165 returns, the \<open>try\<close> block throws, the page is at the depth limit, the page is
  above it and the loop runs; and two cases for the loop.
\<close>

lemma crawl_induct [case_names skip fail leaf node nil cons]:
  assumes skip: "\<And>url s m d. url \<in> visited s \<or> m < d \<Longrightarrow> P url s m d"
    and fail: "\<And>url s m d e. \<not> (url \<in> visited s \<or> m < d) \<Longrightarrow> archiveOne w url dir = Inl e
                 \<Longrightarrow> P url s m d"
    and leaf: "\<And>url s m d pg as ls. \<not> (url \<in> visited s \<or> m < d)
                 \<Longrightarrow> archiveOne w url dir = Inr (pg, as, ls) \<Longrightarrow> \<not> d < m \<Longrightarrow> P url s m d"
    and node: "\<And>url s m d pg as ls. \<not> (url \<in> visited s \<or> m < d)
                 \<Longrightarrow> archiveOne w url dir = Inr (pg, as, ls) \<Longrightarrow> d < m
                 \<Longrightarrow> Q url (take 10 ls) (mark url d s) m d \<lparr>pages = [pg], assets = as\<rparr>
                 \<Longrightarrow> P url s m d"
    and nil: "\<And>url s m d acc. Q url [] s m d acc"
    and cons: "\<And>url link rest s m d acc r s'.
                 archivePage w link dir (s\<lparr>calls := calls s @ [(url, link, d + 1)]\<rparr>) m (d + 1) = (r, s')
                 \<Longrightarrow> P link (s\<lparr>calls := calls s @ [(url, link, d + 1)]\<rparr>) m (d + 1)
                 \<Longrightarrow> Q url rest s' m d \<lparr>pages = pages acc @ pages r, assets = assets acc @ assets r\<rparr>
                 \<Longrightarrow> Q url (link # rest) s m d acc"
  shows "P url s m d" and "Q url ls s m d acc"
proof -
  have "w' = w \<and> dir' = dir \<longrightarrow> P url s m d"
    and "w' = w \<and> dir' = dir \<longrightarrow> Q url ls s m d acc" for w' dir'
  proof (induction w' url dir' s m d and w' url ls dir' s m d acc
      rule: archivePage_crawlLinks.induct)
    case (1 w' url dir' s m d)
    show ?case
    proof
      assume eq: "w' = w \<and> dir' = dir"
      show "P url s m d"
      proof (cases "url \<in> visited s \<or> m < d")
        case True
        then show ?thesis by (rule skip)
      next
        case False
        show ?thesis
        proof (cases "archiveOne w url dir")
          case (Inl e)
          with False show ?thesis by (rule fail)
        next
          case (Inr b)
          obtain pg as ls where b: "b = (pg, as, ls)" by (cases b)
          show ?thesis
          proof (cases "d < m")
            case True
            have "Q url (take 10 ls) (mark url d s) m d \<lparr>pages = [pg], assets = as\<rparr>"
              using "1.IH" [OF False refl refl _ b [symmetric] refl True] Inr eq
              by (simp add: mark_def)
            with False Inr b True show ?thesis by (simp add: node)
          next
            case nd: False
            with False Inr b show ?thesis by (simp add: leaf)
          qed
        qed
      qed
    qed
  next
    case (2 w' url dir' s m d acc)
    show ?case by (simp add: nil)
  next
    case (3 w' url link rest dir' s m d acc)
    show ?case
    proof
      assume eq: "w' = w \<and> dir' = dir"
      obtain r s' where rs:
        "archivePage w link dir (s\<lparr>calls := calls s @ [(url, link, d + 1)]\<rparr>) m (d + 1) = (r, s')"
        by (cases "archivePage w link dir (s\<lparr>calls := calls s @ [(url, link, d + 1)]\<rparr>) m (d + 1)")
      have p: "P link (s\<lparr>calls := calls s @ [(url, link, d + 1)]\<rparr>) m (d + 1)"
        using "3.IH"(1) eq by simp
      have q: "Q url rest s' m d \<lparr>pages = pages acc @ pages r, assets = assets acc @ assets r\<rparr>"
        using "3.IH"(2) [of r s'] rs eq by simp
      from rs p q show "Q url (link # rest) s m d acc" by (rule cons)
    qed
  qed
  then show "P url s m d" and "Q url ls s m d acc" by simp_all
qed

lemma archiveOne_Inr:
  assumes "archiveOne w url dir = Inr (pg, as, ls)"
  shows "purl pg = url" and "pageGet w url \<noteq> None"
    and "\<exists>body. pageGet w url = Some (Loads body) \<and> psize pg = hlength body
           \<and> ls = plinks (fst (processHtmlContent w body url dir))"
    and "\<exists>u. parseUrl w url = Some u \<and> filename pg = pageFilename (pathname u)"
  using assms
  by (auto simp: archiveOne_def Let_def split: option.splits response.splits prod.splits if_splits)

lemma archiveOne_Inl_fetch: "pageGet w url = None \<Longrightarrow> archiveOne w url dir = Inl FetchError"
  by (simp add: archiveOne_def)

lemma links_same_domain:
  assumes "archiveOne w url dir = Inr (pg, as, ls)" and "l \<in> set ls"
  shows "isSameDomain w l url"
proof -
  from archiveOne_Inr(3) [OF assms(1)] obtain body where
    "ls = plinks (fst (processHtmlContent w body url dir))" by blast
  with assms(2) have "l \<in> set (extractLinks w url (elements body))"
    by (simp add: plinks_process set_newSet)
  then obtain el where "linkOf w url el = Some l" by (auto simp: set_extractLinks)
  then show ?thesis by (auto simp: linkOf_Some)
qed

text \<open>Every page record of a crawl comes from a page that \<open>archiveOne\<close> returned.\<close>

lemma pages_crawl:
  assumes G: "\<And>url pg as ls. archiveOne w url dir = Inr (pg, as, ls) \<Longrightarrow> G pg"
  shows "list_all G (pages (fst (archivePage w url dir s m d)))"
    and "list_all G (pages acc) \<longrightarrow> list_all G (pages (fst (crawlLinks w url ls dir s m d acc)))"
proof (induction url s m d and url ls s m d acc rule: crawl_induct [where w = w and dir = dir])
  case (skip url s m d)
  then show ?case by (simp add: archivePage_skip emptyResult_def)
next
  case (fail url s m d e)
  then show ?case by (simp add: archivePage_fail emptyResult_def)
next
  case (leaf url s m d pg as ls)
  then show ?case by (simp add: archivePage_leaf G)
next
  case (node url s m d pg as ls)
  then show ?case using G [of url pg as ls] by (simp add: archivePage_node)
next
  case (nil url s m d acc)
  then show ?case by simp
next
  case (cons url link rest s m d acc r s')
  then show ?case by simp
qed

lemma traceOk_mark: "traceOk s \<Longrightarrow> url \<notin> visited s \<Longrightarrow> traceOk (mark url d s)"
  by (auto simp: traceOk_def mark_def)

lemma traceOk_calls: "traceOk (s\<lparr>calls := c\<rparr>) = traceOk s"
  by (simp add: traceOk_def)

lemma traceOk_fresh: "traceOk freshState"
  by (simp add: traceOk_def freshState_def)

lemma traceOk_crawl:
  "traceOk s \<longrightarrow> traceOk (snd (archivePage w url dir s m d))"
  "traceOk s \<longrightarrow> traceOk (snd (crawlLinks w url ls dir s m d acc))"
proof (induction url s m d and url ls s m d acc rule: crawl_induct [where w = w and dir = dir])
  case (skip url s m d)
  then show ?case by (simp add: archivePage_skip)
next
  case (fail url s m d e)
  then show ?case by (simp add: archivePage_fail traceOk_mark)
next
  case (leaf url s m d pg as ls)
  then show ?case by (simp add: archivePage_leaf traceOk_mark)
next
  case (node url s m d pg as ls)
  then show ?case by (simp add: archivePage_node traceOk_mark)
next
  case (nil url s m d acc)
  then show ?case by simp
next
  case (cons url link rest s m d acc r s')
  then show ?case by (simp add: traceOk_calls)
qed

lemma chain_step:
  "l \<in> set (discovered w dir u) \<Longrightarrow> chain w dir n l v \<Longrightarrow> chain w dir (Suc n) u v"
  by (auto simp: list_ex_iff)

lemma pages_chain:
  "\<forall>pg \<in> set (pages (fst (archivePage w url dir s m d))).
      \<exists>n. n \<le> m - d \<and> chain w dir n url (purl pg)"
  "\<forall>pg \<in> set (pages (fst (crawlLinks w url ls dir s m d acc))).
      pg \<in> set (pages acc)
      \<or> (\<exists>l \<in> set ls. \<exists>n. n \<le> m - (d + 1) \<and> chain w dir n l (purl pg))"
proof (induction url s m d and url ls s m d acc rule: crawl_induct [where w = w and dir = dir])
  case (skip url s m d)
  then show ?case by (simp add: archivePage_skip emptyResult_def)
next
  case (fail url s m d e)
  then show ?case by (simp add: archivePage_fail emptyResult_def)
next
  case (leaf url s m d pg as ls)
  then show ?case using archiveOne_Inr(1) [of w url dir pg as ls]
    by (simp add: archivePage_leaf)
next
  case (node url s m d pg as ls)
  have ls: "discovered w dir url = ls" using node(2) by (simp add: discovered_def)
  have pg: "purl pg = url" using node(2) by (rule archiveOne_Inr(1))
  show ?case
  proof
    fix p assume "p \<in> set (pages (fst (archivePage w url dir s m d)))"
    then have "p \<in> set (pages (fst (crawlLinks w url (take 10 ls) dir (mark url d s) m d
                  \<lparr>pages = [pg], assets = as\<rparr>)))"
      using node by (simp add: archivePage_node)
    with node(4) have "p = pg
        \<or> (\<exists>l \<in> set (take 10 ls). \<exists>n. n \<le> m - (d + 1) \<and> chain w dir n l (purl p))"
      by auto
    then show "\<exists>n. n \<le> m - d \<and> chain w dir n url (purl p)"
    proof
      assume "p = pg"
      with pg have "chain w dir 0 url (purl p)" by simp
      then show ?thesis by blast
    next
      assume "\<exists>l \<in> set (take 10 ls). \<exists>n. n \<le> m - (d + 1) \<and> chain w dir n l (purl p)"
      then obtain l n where l: "l \<in> set (take 10 ls)" and n: "n \<le> m - (d + 1)"
        and c: "chain w dir n l (purl p)" by blast
      from l have "l \<in> set (discovered w dir url)" using ls by (auto dest: in_set_takeD)
      then have "chain w dir (Suc n) url (purl p)" using c by (rule chain_step)
      moreover have "Suc n \<le> m - d" using n node(3) by simp
      ultimately show ?thesis by blast
    qed
  qed
next
  case (nil url s m d acc)
  then show ?case by simp
next
  case (cons url link rest s m d acc r s')
  show ?case
  proof
    fix p assume "p \<in> set (pages (fst (crawlLinks w url (link # rest) dir s m d acc)))"
    then have "p \<in> set (pages (fst (crawlLinks w url rest dir s' m d
                  \<lparr>pages = pages acc @ pages r, assets = assets acc @ assets r\<rparr>)))"
      using cons(1) by simp
    with cons(3) have "p \<in> set (pages acc) \<or> p \<in> set (pages r)
        \<or> (\<exists>l \<in> set rest. \<exists>n. n \<le> m - (d + 1) \<and> chain w dir n l (purl p))"
      by auto
    moreover have "p \<in> set (pages r) \<Longrightarrow> \<exists>n. n \<le> m - (d + 1) \<and> chain w dir n link (purl p)"
      using cons(2) cons(1) by auto
    ultimately show "p \<in> set (pages acc)
        \<or> (\<exists>l \<in> set (link # rest). \<exists>n. n \<le> m - (d + 1) \<and> chain w dir n l (purl p))"
      by auto
  qed
qed

lemma entryOk_mono:
  "entryOk w dir m s e \<Longrightarrow> set (fetched s) \<subseteq> set (fetched s') \<Longrightarrow> visited s \<subseteq> visited s'
   \<Longrightarrow> entryOk w dir m s' e"
  by (auto simp: entryOk_def split: prod.splits)

lemma entryOk_visited: "entryOk w dir m s e \<Longrightarrow> fst e \<in> visited s"
  by (cases e) (simp add: entryOk_def)

lemma callsFrom_none: "(\<forall>e \<in> set cs. fst e \<noteq> q) \<Longrightarrow> callsFrom q cs = []"
  by (auto simp: callsFrom_def filter_empty_conv)

lemma callsFrom_in: "callsFrom q cs \<noteq> [] \<Longrightarrow> \<exists>e \<in> set cs. fst e = q"
  by (auto simp: callsFrom_def filter_empty_conv)

lemma calls_crawl:
  "visited s \<subseteq> visited (snd (archivePage w url dir s m d))
   \<and> set (fetched s) \<subseteq> set (fetched (snd (archivePage w url dir s m d)))
   \<and> (\<exists>new. calls (snd (archivePage w url dir s m d)) = calls s @ new
        \<and> (\<forall>e \<in> set new. fst e \<notin> visited s
              \<and> entryOk w dir m (snd (archivePage w url dir s m d)) e)
        \<and> (\<forall>q. length (callsFrom q new) \<le> 10))"
  "url \<in> visited s \<and> (url, d) \<in> set (fetched s) \<and> d < m \<and> length ls \<le> 10
     \<and> set ls \<subseteq> set (take 10 (discovered w dir url)) \<longrightarrow>
   visited s \<subseteq> visited (snd (crawlLinks w url ls dir s m d acc))
   \<and> set (fetched s) \<subseteq> set (fetched (snd (crawlLinks w url ls dir s m d acc)))
   \<and> (\<exists>new. calls (snd (crawlLinks w url ls dir s m d acc)) = calls s @ new
        \<and> (\<forall>e \<in> set new. (fst e = url \<or> fst e \<notin> visited s)
              \<and> entryOk w dir m (snd (crawlLinks w url ls dir s m d acc)) e)
        \<and> length (callsFrom url new) = length ls
        \<and> (\<forall>q. q \<noteq> url \<longrightarrow> length (callsFrom q new) \<le> 10))"
proof (induction url s m d and url ls s m d acc rule: crawl_induct [where w = w and dir = dir])
  case (skip url s m d)
  then show ?case by (simp add: archivePage_skip callsFrom_def)
next
  case (fail url s m d e)
  then show ?case by (auto simp: archivePage_fail mark_def callsFrom_def)
next
  case (leaf url s m d pg as ls)
  then show ?case by (auto simp: archivePage_leaf mark_def callsFrom_def)
next
  case (node url s m d pg as ls)
  let ?s2 = "mark url d s"
  let ?s' = "snd (crawlLinks w url (take 10 ls) dir ?s2 m d \<lparr>pages = [pg], assets = as\<rparr>)"
  have eq: "snd (archivePage w url dir s m d) = ?s'"
    using node(1-3) by (simp add: archivePage_node)
  have ls: "discovered w dir url = ls" using node(2) by (simp add: discovered_def)
  have pre: "url \<in> visited ?s2 \<and> (url, d) \<in> set (fetched ?s2) \<and> d < m
      \<and> length (take 10 ls) \<le> 10
      \<and> set (take 10 ls) \<subseteq> set (take 10 (discovered w dir url))"
    using node(3) ls by (simp add: mark_def)
  from node(4) pre obtain new where
    v: "visited ?s2 \<subseteq> visited ?s'" and f: "set (fetched ?s2) \<subseteq> set (fetched ?s')"
    and c: "calls ?s' = calls ?s2 @ new"
    and e: "\<forall>e \<in> set new. (fst e = url \<or> fst e \<notin> visited ?s2) \<and> entryOk w dir m ?s' e"
    and n: "length (callsFrom url new) = length (take 10 ls)"
    and o: "\<forall>q. q \<noteq> url \<longrightarrow> length (callsFrom q new) \<le> 10"
    by blast
  have "visited s \<subseteq> visited ?s'" using v by (auto simp: mark_def)
  moreover have "set (fetched s) \<subseteq> set (fetched ?s')" using f by (auto simp: mark_def)
  moreover have "calls ?s' = calls s @ new" using c by (simp add: mark_def)
  moreover have "\<forall>e \<in> set new. fst e \<notin> visited s \<and> entryOk w dir m ?s' e"
    using e node(1) by (auto simp: mark_def)
  moreover have "\<forall>q. length (callsFrom q new) \<le> 10"
  proof
    fix q show "length (callsFrom q new) \<le> 10"
      using n o by (cases "q = url") simp_all
  qed
  ultimately show ?case unfolding eq by blast
next
  case (nil url s m d acc)
  then show ?case by (simp add: callsFrom_def)
next
  case (cons url link rest s m d acc r s1)
  let ?e0 = "(url, link, d + 1)"
  let ?s0 = "s\<lparr>calls := calls s @ [?e0]\<rparr>"
  let ?acc = "\<lparr>pages = pages acc @ pages r, assets = assets acc @ assets r\<rparr>"
  let ?s' = "snd (crawlLinks w url rest dir s1 m d ?acc)"
  have eq: "snd (crawlLinks w url (link # rest) dir s m d acc) = ?s'"
    using cons(1) by simp
  show ?case
  proof
    assume pre: "url \<in> visited s \<and> (url, d) \<in> set (fetched s) \<and> d < m
        \<and> length (link # rest) \<le> 10
        \<and> set (link # rest) \<subseteq> set (take 10 (discovered w dir url))"
    from cons(2) cons(1) obtain new1 where
      v1: "visited s \<subseteq> visited s1" and f1: "set (fetched s) \<subseteq> set (fetched s1)"
      and c1: "calls s1 = calls s @ [?e0] @ new1"
      and e1: "\<forall>e \<in> set new1. fst e \<notin> visited s \<and> entryOk w dir m s1 e"
      and n1: "\<forall>q. length (callsFrom q new1) \<le> 10"
      by auto
    have pre1: "url \<in> visited s1 \<and> (url, d) \<in> set (fetched s1) \<and> d < m
        \<and> length rest \<le> 10 \<and> set rest \<subseteq> set (take 10 (discovered w dir url))"
      using pre v1 f1 by auto
    from cons(3) pre1 obtain new2 where
      v2: "visited s1 \<subseteq> visited ?s'" and f2: "set (fetched s1) \<subseteq> set (fetched ?s')"
      and c2: "calls ?s' = calls s1 @ new2"
      and e2: "\<forall>e \<in> set new2. (fst e = url \<or> fst e \<notin> visited s1) \<and> entryOk w dir m ?s' e"
      and n2: "length (callsFrom url new2) = length rest"
      and o2: "\<forall>q. q \<noteq> url \<longrightarrow> length (callsFrom q new2) \<le> 10"
      by blast
    let ?new = "?e0 # new1 @ new2"
    have V: "visited s \<subseteq> visited ?s'" using v1 v2 by blast
    have F: "set (fetched s) \<subseteq> set (fetched ?s')" using f1 f2 by blast
    have C: "calls ?s' = calls s @ ?new" using c1 c2 by simp
    have e0: "entryOk w dir m ?s' ?e0"
      using pre V F by (auto simp: entryOk_def)
    have E: "\<forall>e \<in> set ?new. (fst e = url \<or> fst e \<notin> visited s) \<and> entryOk w dir m ?s' e"
    proof
      fix e assume "e \<in> set ?new"
      then consider "e = ?e0" | "e \<in> set new1" | "e \<in> set new2" by auto
      then show "(fst e = url \<or> fst e \<notin> visited s) \<and> entryOk w dir m ?s' e"
      proof cases
        case 1
        with e0 show ?thesis by simp
      next
        case 2
        with e1 have "fst e \<notin> visited s" and "entryOk w dir m s1 e" by auto
        with f2 v2 show ?thesis by (auto intro: entryOk_mono)
      next
        case 3
        with e2 v1 show ?thesis by auto
      qed
    qed
    have "callsFrom url new1 = []"
      using e1 pre by (intro callsFrom_none) auto
    then have N: "length (callsFrom url ?new) = length (link # rest)"
      using n2 by (simp add: callsFrom_def)
    have O: "\<forall>q. q \<noteq> url \<longrightarrow> length (callsFrom q ?new) \<le> 10"
    proof (intro allI impI)
      fix q assume q: "q \<noteq> url"
      have split: "callsFrom q ?new = callsFrom q new1 @ callsFrom q new2"
        using q by (simp add: callsFrom_def)
      show "length (callsFrom q ?new) \<le> 10"
      proof (cases "callsFrom q new1 = []")
        case True
        with split o2 q show ?thesis by simp
      next
        case False
        then obtain e where "e \<in> set new1" "fst e = q" by (auto dest: callsFrom_in)
        with e1 have "q \<in> visited s1" by (auto dest: entryOk_visited)
        with e2 q have "callsFrom q new2 = []" by (intro callsFrom_none) auto
        with split n1 show ?thesis by simp
      qed
    qed
    from V F C E N O show
      "visited s \<subseteq> visited (snd (crawlLinks w url (link # rest) dir s m d acc))
       \<and> set (fetched s) \<subseteq> set (fetched (snd (crawlLinks w url (link # rest) dir s m d acc)))
       \<and> (\<exists>new. calls (snd (crawlLinks w url (link # rest) dir s m d acc)) = calls s @ new
            \<and> (\<forall>e \<in> set new. (fst e = url \<or> fst e \<notin> visited s)
                  \<and> entryOk w dir m (snd (crawlLinks w url (link # rest) dir s m d acc)) e)
            \<and> length (callsFrom url new) = length (link # rest)
            \<and> (\<forall>q. q \<noteq> url \<longrightarrow> length (callsFrom q new) \<le> 10))"
      unfolding eq by blast
  qed
qed

lemma hosts_crawl:
  "isSameDomain w url root \<and> (\<forall>e \<in> set (fetched s). isSameDomain w (fst e) root) \<longrightarrow>
     (\<forall>e \<in> set (fetched (snd (archivePage w url dir s m d))). isSameDomain w (fst e) root)"
  "(\<forall>l \<in> set ls. isSameDomain w l root) \<and> (\<forall>e \<in> set (fetched s). isSameDomain w (fst e) root) \<longrightarrow>
     (\<forall>e \<in> set (fetched (snd (crawlLinks w url ls dir s m d acc))). isSameDomain w (fst e) root)"
proof (induction url s m d and url ls s m d acc rule: crawl_induct [where w = w and dir = dir])
  case (skip url s m d)
  then show ?case by (simp add: archivePage_skip)
next
  case (fail url s m d e)
  then show ?case by (auto simp: archivePage_fail mark_def)
next
  case (leaf url s m d pg as ls)
  then show ?case by (auto simp: archivePage_leaf mark_def)
next
  case (node url s m d pg as ls)
  show ?case
  proof
    assume a: "isSameDomain w url root \<and> (\<forall>e \<in> set (fetched s). isSameDomain w (fst e) root)"
    have "\<forall>l \<in> set (take 10 ls). isSameDomain w l root"
    proof
      fix l assume "l \<in> set (take 10 ls)"
      then have "l \<in> set ls" by (rule in_set_takeD)
      with node(2) have "isSameDomain w l url" by (rule links_same_domain)
      with a show "isSameDomain w l root" by (blast intro: isSameDomain_trans)
    qed
    moreover have "\<forall>e \<in> set (fetched (mark url d s)). isSameDomain w (fst e) root"
      using a by (auto simp: mark_def)
    ultimately show "\<forall>e \<in> set (fetched (snd (archivePage w url dir s m d))). isSameDomain w (fst e) root"
      using node by (simp add: archivePage_node)
  qed
next
  case (nil url s m d acc)
  then show ?case by simp
next
  case (cons url link rest s m d acc r s')
  show ?case
  proof
    assume a: "(\<forall>l \<in> set (link # rest). isSameDomain w l root)
        \<and> (\<forall>e \<in> set (fetched s). isSameDomain w (fst e) root)"
    have "\<forall>e \<in> set (fetched s'). isSameDomain w (fst e) root"
      using cons(2) cons(1) a by simp
    then have "\<forall>e \<in> set (fetched (snd (crawlLinks w url rest dir s' m d
        \<lparr>pages = pages acc @ pages r, assets = assets acc @ assets r\<rparr>))). isSameDomain w (fst e) root"
      using cons(3) a by simp
    then show "\<forall>e \<in> set (fetched (snd (crawlLinks w url (link # rest) dir s m d acc))).
        isSameDomain w (fst e) root"
      using cons(1) by simp
  qed
qed

lemma grows_crawl:
  "visited s \<subseteq> visited (snd (archivePage w url dir s m d))
   \<and> (\<exists>nf. fetched (snd (archivePage w url dir s m d)) = fetched s @ nf)"
  "visited s \<subseteq> visited (snd (crawlLinks w url ls dir s m d acc))
   \<and> (\<exists>nf. fetched (snd (crawlLinks w url ls dir s m d acc)) = fetched s @ nf)"
proof (induction url s m d and url ls s m d acc rule: crawl_induct [where w = w and dir = dir])
  case (skip url s m d)
  then show ?case by (simp add: archivePage_skip)
next
  case (fail url s m d e)
  then show ?case by (auto simp: archivePage_fail mark_def)
next
  case (leaf url s m d pg as ls)
  then show ?case by (auto simp: archivePage_leaf mark_def)
next
  case (node url s m d pg as ls)
  then show ?case by (auto simp: archivePage_node mark_def)
next
  case (nil url s m d acc)
  then show ?case by simp
next
  case (cons url link rest s m d acc r s')
  from cons(2) cons(1) have 1: "visited s \<subseteq> visited s'" and 2: "\<exists>nf. fetched s' = fetched s @ nf"
    by auto
  let ?s'' = "snd (crawlLinks w url rest dir s' m d
      \<lparr>pages = pages acc @ pages r, assets = assets acc @ assets r\<rparr>)"
  from cons(3) have 3: "visited s' \<subseteq> visited ?s''" and 4: "\<exists>nf. fetched ?s'' = fetched s' @ nf"
    by auto
  from 1 3 have "visited s \<subseteq> visited ?s''" by blast
  moreover from 2 4 have "\<exists>nf. fetched ?s'' = fetched s @ nf" by auto
  ultimately show ?case using cons(1) by simp
qed

lemma archivePage_marks:
  assumes "url \<notin> visited s" and "d \<le> m"
  shows "url \<in> visited (snd (archivePage w url dir s m d))
     \<and> (\<exists>rest. fetched (snd (archivePage w url dir s m d)) = fetched s @ (url, d) # rest)"
proof -
  from assms have g: "\<not> (url \<in> visited s \<or> m < d)" by simp
  show ?thesis
  proof (cases "archiveOne w url dir")
    case (Inl e)
    with g show ?thesis by (simp add: archivePage_fail mark_def)
  next
    case (Inr b)
    obtain pg as ls where b: "b = (pg, as, ls)" by (cases b)
    show ?thesis
    proof (cases "d < m")
      case True
      let ?s' = "snd (crawlLinks w url (take 10 ls) dir (mark url d s) m d \<lparr>pages = [pg], assets = as\<rparr>)"
      from grows_crawl(2) [of "mark url d s" w url "take 10 ls" dir m d "\<lparr>pages = [pg], assets = as\<rparr>"]
      obtain nf where v: "visited (mark url d s) \<subseteq> visited ?s'"
        and f: "fetched ?s' = fetched (mark url d s) @ nf" by blast
      from v have "url \<in> visited ?s'" by (auto simp: mark_def)
      moreover from f have "fetched ?s' = fetched s @ (url, d) # nf" by (simp add: mark_def)
      ultimately show ?thesis using g Inr b True by (simp add: archivePage_node)
    next
      case False
      with g Inr b show ?thesis by (simp add: archivePage_leaf mark_def)
    qed
  qed
qed

text \<open>The crawl of the sample site, evaluated once.\<close>

lemma site_crawl:
  "archivePage site ''http://a.com/'' siteDir freshState 2 0 =
     (\<lparr>pages =
         [\<lparr>purl = ''http://a.com/'', filename = ''index.html'', psize = Length 2000,
            timestamp = ''2024-01-01T00:00:00.000Z''\<rparr>,
          \<lparr>purl = ''http://a.com/b'', filename = ''b'', psize = Length 100,
            timestamp = ''2024-01-01T00:00:00.000Z''\<rparr>],
       assets =
         [\<lparr>atype = Js, aurl = ''http://[bad'', astatus = Failed, asize = None\<rparr>,
          \<lparr>atype = Css, aurl = ''http://a.com/s.css'', astatus = Downloaded, asize = None\<rparr>]\<rparr>,
      \<lparr>visited = {''http://a.com/'', ''http://a.com/b'', ''http://a.com/c''},
       fetched = [(''http://a.com/'', 0), (''http://a.com/b'', 1), (''http://a.com/c'', 2)],
       calls = [(''http://a.com/'', ''http://a.com/b'', 1),
                (''http://a.com/b'', ''http://a.com/'', 2),
                (''http://a.com/b'', ''http://a.com/c'', 2),
                (''http://a.com/'', ''http://a.com/c'', 1)]\<rparr>)"
  by code_simp

text \<open>
  Claim C1.  In a crawl run no URL is fetched more than once.  A call of \<open>archivePage\<close>
  keeps the state in order (every URL fetched is in the visited set and no URL is
  fetched twice), so the run from the new state fetches each URL at most once.  A call
  whose URL is already in the visited set returns the empty result and leaves the
  state, the list of fetches included, as it was.  A call that passes the guard puts
  its URL into the visited set, and its own fetch comes before every other fetch it
  causes.  The fetches are those of pages, on line 174.
\<close>

theorem visited_once:
  "(traceOk s \<longrightarrow> traceOk (snd (archivePage w url dir s m d)))
   \<and> distinct (map fst (fetched (snd (archivePage w root dir freshState m 0))))
   \<and> (url \<in> visited s \<longrightarrow> archivePage w url dir s m d = (emptyResult, s))
   \<and> (url \<notin> visited s \<and> d \<le> m \<longrightarrow>
        url \<in> visited (snd (archivePage w url dir s m d))
        \<and> (\<exists>rest. fetched (snd (archivePage w url dir s m d)) = fetched s @ (url, d) # rest))"
proof -
  have "traceOk (snd (archivePage w root dir freshState m 0))"
    using traceOk_crawl(1) [of freshState w root dir m 0] traceOk_fresh by blast
  then have "distinct (map fst (fetched (snd (archivePage w root dir freshState m 0))))"
    by (simp add: traceOk_def)
  then show ?thesis
    using traceOk_crawl(1) [of s w url dir m d] archivePage_marks [of url s d m w dir]
    by (simp add: archivePage_skip)
qed

theorem visited_once_witness:
  "traceOk freshState
   \<and> traceOk (snd (archivePage site ''http://a.com/'' siteDir freshState 2 0))
   \<and> map fst (fetched (snd (archivePage site ''http://a.com/'' siteDir freshState 2 0))) =
       [''http://a.com/'', ''http://a.com/b'', ''http://a.com/c'']
   \<and> ''http://a.com/'' \<in> visited (snd (archivePage site ''http://a.com/'' siteDir freshState 2 0))
   \<and> archivePage site ''http://a.com/'' siteDir
         (snd (archivePage site ''http://a.com/'' siteDir freshState 2 0)) 2 2 =
       (emptyResult, snd (archivePage site ''http://a.com/'' siteDir freshState 2 0))"
proof -
  let ?s = "snd (archivePage site ''http://a.com/'' siteDir freshState 2 0)"
  have v: "''http://a.com/'' \<in> visited ?s" by (simp add: site_crawl)
  have "traceOk ?s"
    using visited_once [of freshState site "''http://a.com/''" siteDir 2 0] traceOk_fresh by blast
  moreover have "archivePage site ''http://a.com/'' siteDir ?s 2 2 = (emptyResult, ?s)"
    using visited_once [of ?s site "''http://a.com/''" siteDir 2 2] v by blast
  ultimately show ?thesis using v traceOk_fresh by (simp add: site_crawl)
qed

text \<open>
  Claim C3.  In a crawl run from depth 0 with limit \<open>m\<close>, every recursive call is made
  from a page that was itself fetched at a depth below \<open>m\<close>, is made at that depth plus
  one, and goes to one of the first ten links found on the page; no page makes more than
  ten recursive calls; and every page record of the result is reached from the root by a
  chain of at most \<open>m\<close> links.  (The calls of one page run one after the other on the
  same state: this is how \<open>crawlLinks\<close> passes the state on.)
\<close>

theorem depth_and_fanout:
  "(\<forall>e \<in> set (calls (snd (archivePage w root dir freshState m 0))).
       entryOk w dir m (snd (archivePage w root dir freshState m 0)) e)
   \<and> (\<forall>q. length (callsFrom q (calls (snd (archivePage w root dir freshState m 0)))) \<le> 10)
   \<and> (\<forall>pg \<in> set (pages (fst (archivePage w root dir freshState m 0))).
         \<exists>n. n \<le> m \<and> chain w dir n root (purl pg))"
proof -
  let ?s' = "snd (archivePage w root dir freshState m 0)"
  from calls_crawl(1) [of freshState w root dir m 0] obtain new where
    c: "calls ?s' = calls freshState @ new"
    and e: "\<forall>e \<in> set new. fst e \<notin> visited freshState \<and> entryOk w dir m ?s' e"
    and n: "\<forall>q. length (callsFrom q new) \<le> 10"
    by blast
  have new: "calls ?s' = new" using c by (simp add: freshState_def)
  have "\<forall>pg \<in> set (pages (fst (archivePage w root dir freshState m 0))).
         \<exists>n. n \<le> m \<and> chain w dir n root (purl pg)"
    using pages_chain(1) [of w root dir freshState m 0] by simp
  with e n show ?thesis unfolding new by blast
qed

theorem depth_and_fanout_witness:
  "calls (snd (archivePage site ''http://a.com/'' siteDir freshState 2 0)) =
     [(''http://a.com/'', ''http://a.com/b'', 1), (''http://a.com/b'', ''http://a.com/'', 2),
      (''http://a.com/b'', ''http://a.com/c'', 2), (''http://a.com/'', ''http://a.com/c'', 1)]
   \<and> entryOk site siteDir 2 (snd (archivePage site ''http://a.com/'' siteDir freshState 2 0))
        (''http://a.com/b'', ''http://a.com/c'', 2)
   \<and> map purl (pages (fst (archivePage site ''http://a.com/'' siteDir freshState 2 0))) =
        [''http://a.com/'', ''http://a.com/b'']
   \<and> (\<exists>n. n \<le> 2 \<and> chain site siteDir n ''http://a.com/'' ''http://a.com/b'')"
proof -
  let ?r = "archivePage site ''http://a.com/'' siteDir freshState 2 0"
  note t = depth_and_fanout [of site "''http://a.com/''" siteDir 2]
  have "(''http://a.com/b'', ''http://a.com/c'', 2) \<in> set (calls (snd ?r))"
    by (simp add: site_crawl)
  with t have 1: "entryOk site siteDir 2 (snd ?r) (''http://a.com/b'', ''http://a.com/c'', 2)"
    by blast
  have "\<lparr>purl = ''http://a.com/b'', filename = ''b'', psize = Length 100,
            timestamp = ''2024-01-01T00:00:00.000Z''\<rparr> \<in> set (pages (fst ?r))"
    by (simp add: site_crawl)
  with t have "\<exists>n. n \<le> 2 \<and> chain site siteDir n ''http://a.com/''
      (purl \<lparr>purl = ''http://a.com/b'', filename = ''b'', psize = Length 100,
            timestamp = ''2024-01-01T00:00:00.000Z''\<rparr>)"
    by blast
  then have 2: "\<exists>n. n \<le> 2 \<and> chain site siteDir n ''http://a.com/'' ''http://a.com/b''"
    by simp
  from 1 2 show ?thesis by (simp add: site_crawl)
qed

text \<open>
  Claim C4, as amended.  The links returned are exactly the targets of the anchors whose
  reference is not empty, does not start with \<open>#\<close>, \<open>mailto:\<close> or \<open>tel:\<close>, resolves
  against the page URL and has, resolved, the hostname of the page; no link occurs
  twice; and in a crawl from a root that parses, every URL fetched has the hostname of
  the root.
\<close>

theorem links_same_host:
  "set (plinks (fst (processHtmlContent w body base dir))) =
     {u. \<exists>el \<in> set (elements body). \<exists>href.
           tag el = ''a'' \<and> attr el ''href'' = Some href \<and> href \<noteq> []
           \<and> \<not> startsWith href ''#'' \<and> \<not> startsWith href ''mailto:''
           \<and> \<not> startsWith href ''tel:'' \<and> resolveUrl w href base = Some u
           \<and> (\<exists>hu hb. parseUrl w u = Some hu \<and> parseUrl w base = Some hb
                 \<and> hostname hu = hostname hb)}
   \<and> distinct (plinks (fst (processHtmlContent w body base dir)))
   \<and> (isValidUrl w root \<longrightarrow>
        (\<forall>e \<in> set (fetched (snd (archivePage w root dir freshState m 0))).
           \<exists>hu hr. parseUrl w (fst e) = Some hu \<and> parseUrl w root = Some hr
             \<and> hostname hu = hostname hr))"
proof -
  have 1: "set (plinks (fst (processHtmlContent w body base dir))) =
     {u. \<exists>el \<in> set (elements body). \<exists>href.
           tag el = ''a'' \<and> attr el ''href'' = Some href \<and> href \<noteq> []
           \<and> \<not> startsWith href ''#'' \<and> \<not> startsWith href ''mailto:''
           \<and> \<not> startsWith href ''tel:'' \<and> resolveUrl w href base = Some u
           \<and> (\<exists>hu hb. parseUrl w u = Some hu \<and> parseUrl w base = Some hb
                 \<and> hostname hu = hostname hb)}"
    unfolding plinks_process set_newSet set_extractLinks linkOf_Some isSameDomain_iff
    by (auto simp: isAnchor_def)
  have 2: "distinct (plinks (fst (processHtmlContent w body base dir)))"
    by (simp add: plinks_process distinct_newSet)
  have 3: "isValidUrl w root \<longrightarrow>
        (\<forall>e \<in> set (fetched (snd (archivePage w root dir freshState m 0))).
           \<exists>hu hr. parseUrl w (fst e) = Some hu \<and> parseUrl w root = Some hr
             \<and> hostname hu = hostname hr)"
  proof
    assume "isValidUrl w root"
    then have "isSameDomain w root root" by (rule isSameDomain_refl)
    then have "\<forall>e \<in> set (fetched (snd (archivePage w root dir freshState m 0))).
        isSameDomain w (fst e) root"
      using hosts_crawl(1) [of w root root freshState dir m 0] by (simp add: freshState_def)
    then show "\<forall>e \<in> set (fetched (snd (archivePage w root dir freshState m 0))).
           \<exists>hu hr. parseUrl w (fst e) = Some hu \<and> parseUrl w root = Some hr
             \<and> hostname hu = hostname hr"
      by (simp add: isSameDomain_iff)
  qed
  from 1 2 3 show ?thesis by blast
qed

theorem links_same_host_witness:
  "set (plinks (fst (processHtmlContent site rootPage ''http://a.com/'' siteDir))) =
     {''http://a.com/b'', ''http://a.com/c''}
   \<and> ''http://b.org/x'' \<notin> set (plinks (fst (processHtmlContent site rootPage ''http://a.com/'' siteDir)))
   \<and> isValidUrl site ''http://a.com/''
   \<and> (\<exists>hu hr. parseUrl site ''http://a.com/c'' = Some hu \<and> parseUrl site ''http://a.com/'' = Some hr
         \<and> hostname hu = hostname hr)"
proof -
  note t = links_same_host [of site rootPage "''http://a.com/''" siteDir "''http://a.com/''" 2]
  have v: "isValidUrl site ''http://a.com/''"
    by (simp add: isValidUrl_def site_def siteUrls_def)
  have "(''http://a.com/c'', 2) \<in> set (fetched (snd (archivePage site ''http://a.com/'' siteDir freshState 2 0)))"
    by (simp add: site_crawl)
  with t v have "\<exists>hu hr. parseUrl site (fst (''http://a.com/c'', 2::nat)) = Some hu
      \<and> parseUrl site ''http://a.com/'' = Some hr \<and> hostname hu = hostname hr"
    by blast
  then have 3: "\<exists>hu hr. parseUrl site ''http://a.com/c'' = Some hu
      \<and> parseUrl site ''http://a.com/'' = Some hr \<and> hostname hu = hostname hr"
    by simp
  have l: "plinks (fst (processHtmlContent site rootPage ''http://a.com/'' siteDir)) =
      [''http://a.com/b'', ''http://a.com/c'']"
    by code_simp
  from v 3 show ?thesis unfolding l by simp
qed

text \<open>
  The claim as first stated leaves out that the reference must not be empty.  The root
  page of the sample site has an anchor with the empty reference, which resolves to the
  page itself: the claim counts it among the links, the Processor does not return it.
\<close>

theorem links_same_host_counterexample:
  "''http://a.com/'' \<in> set (claimedLinks site rootPage ''http://a.com/'')
   \<and> ''http://a.com/'' \<notin> set (plinks (fst (processHtmlContent site rootPage ''http://a.com/'' siteDir)))"
proof -
  have l: "plinks (fst (processHtmlContent site rootPage ''http://a.com/'' siteDir)) =
      [''http://a.com/b'', ''http://a.com/c'']"
    by code_simp
  have c: "claimedLinks site rootPage ''http://a.com/'' =
      [''http://a.com/b'', ''http://a.com/'', ''http://a.com/b'', ''http://a.com/c'']"
    by code_simp
  show ?thesis unfolding l c by simp
qed

text \<open>
  Claim C6.  When the fetch of a page fails, \<open>archivePage\<close> returns the empty result for
  it; if the call passed the guard, the only change to the state is that the URL is now
  visited and fetched; the loop of the calling page goes on with the remaining links and
  keeps what it has gathered; and no crawl has a page record for this URL.  The failure
  is a value inside \<open>archiveOne\<close> and is gone in the result of \<open>archivePage\<close>.
\<close>

theorem fetch_failure_swallowed:
  "pageGet w url = None \<Longrightarrow>
     fst (archivePage w url dir s m d) = emptyResult
     \<and> (url \<notin> visited s \<and> d \<le> m \<longrightarrow>
          snd (archivePage w url dir s m d) =
            s\<lparr>visited := insert url (visited s), fetched := fetched s @ [(url, d)]\<rparr>)
     \<and> crawlLinks w parent (url # rest) dir s m d acc =
         crawlLinks w parent rest dir
           (snd (archivePage w url dir (s\<lparr>calls := calls s @ [(parent, url, d + 1)]\<rparr>) m (d + 1)))
           m d acc
     \<and> (\<forall>pg \<in> set (pages (fst (archivePage w root dir s' m' d'))). purl pg \<noteq> url)"
proof -
  assume none: "pageGet w url = None"
  then have one: "archiveOne w url dir = Inl FetchError" by (rule archiveOne_Inl_fetch)
  have a: "fst (archivePage w url dir s m d) = emptyResult" for s m d
    using one by (cases "url \<in> visited s \<or> m < d") (simp_all add: archivePage_skip archivePage_fail)
  have b: "url \<notin> visited s \<and> d \<le> m \<longrightarrow>
          snd (archivePage w url dir s m d) =
            s\<lparr>visited := insert url (visited s), fetched := fetched s @ [(url, d)]\<rparr>"
    using one by (auto simp: archivePage_fail mark_def)
  let ?s0 = "s\<lparr>calls := calls s @ [(parent, url, d + 1)]\<rparr>"
  obtain r s1 where rs: "archivePage w url dir ?s0 m (d + 1) = (r, s1)"
    by (cases "archivePage w url dir ?s0 m (d + 1)")
  have "r = emptyResult" using a [of ?s0 m "d + 1"] rs by simp
  then have c: "crawlLinks w parent (url # rest) dir s m d acc =
         crawlLinks w parent rest dir (snd (archivePage w url dir ?s0 m (d + 1))) m d acc"
    using rs by (cases acc) (simp add: emptyResult_def)
  have "list_all (\<lambda>pg. pageGet w (purl pg) \<noteq> None) (pages (fst (archivePage w root dir s' m' d')))"
    by (rule pages_crawl(1)) (simp add: archiveOne_Inr)
  then have e: "\<forall>pg \<in> set (pages (fst (archivePage w root dir s' m' d'))). purl pg \<noteq> url"
    using none by (auto simp: list_all_iff)
  from a b c e show ?thesis by blast
qed

theorem fetch_failure_swallowed_witness:
  "pageGet site ''http://a.com/c'' = None
   \<and> archivePage site ''http://a.com/c'' siteDir freshState 2 0 =
       (emptyResult, \<lparr>visited = {''http://a.com/c''}, fetched = [(''http://a.com/c'', 0)], calls = []\<rparr>)
   \<and> map purl (pages (fst (archivePage site ''http://a.com/'' siteDir freshState 2 0))) =
       [''http://a.com/'', ''http://a.com/b'']"
proof -
  have n: "pageGet site ''http://a.com/c'' = None" by (simp add: site_def)
  note t = fetch_failure_swallowed [OF n, of siteDir freshState 2 0]
  have "''http://a.com/c'' \<notin> visited freshState \<and> (0::nat) \<le> 2" by (simp add: freshState_def)
  with t have "archivePage site ''http://a.com/c'' siteDir freshState 2 0 =
      (emptyResult, freshState\<lparr>visited := insert ''http://a.com/c'' (visited freshState),
         fetched := fetched freshState @ [(''http://a.com/c'', 0)]\<rparr>)"
    by (metis prod.collapse)
  then have a: "archivePage site ''http://a.com/c'' siteDir freshState 2 0 =
      (emptyResult, \<lparr>visited = {''http://a.com/c''}, fetched = [(''http://a.com/c'', 0)], calls = []\<rparr>)"
    by (simp add: freshState_def)
  have p: "map purl (pages (fst (archivePage site ''http://a.com/'' siteDir freshState 2 0))) =
       [''http://a.com/'', ''http://a.com/b'']"
    by (simp add: site_crawl)
  from n a p show ?thesis by blast
qed

section \<open>Creating an archive\<close>















section \<open>Deleting an archive\<close>

lemma findIndex_None: "findIndex P xs = None \<longleftrightarrow> (\<forall>x \<in> set xs. \<not> P x)"
  by (induction xs) (auto split: option.splits)

lemma findIndex_Some:
  "findIndex P xs = Some i \<Longrightarrow>
     splice1 i xs = takeWhile (\<lambda>x. \<not> P x) xs @ tl (dropWhile (\<lambda>x. \<not> P x) xs)"
proof (induction xs arbitrary: i)
  case Nil
  then show ?case by simp
next
  case (Cons x xs)
  show ?case
  proof (cases "P x")
    case True
    with Cons.prems show ?thesis by (simp add: splice1_def)
  next
    case False
    with Cons.prems obtain j where j: "findIndex P xs = Some j" and i: "i = Suc j"
      by (auto split: option.splits)
    from Cons.IH [OF j] False i show ?thesis by (simp add: splice1_def)
  qed
qed

lemma deleteArchive_missing:
  "ident \<notin> archiveId ` set archives \<Longrightarrow>
     deleteArchive rm w ident archives fs = (ErrorJson 404 ''Archive not found'', archives, fs)"
proof -
  assume "ident \<notin> archiveId ` set archives"
  then have "findIndex (\<lambda>a. archiveId a = ident) archives = None"
    by (auto simp: findIndex_None)
  then show ?thesis by (simp add: deleteArchive_def)
qed

lemma deleteArchive_found:
  assumes "ident \<in> archiveId ` set archives"
  shows "deleteArchive rm w ident archives fs =
     (case rm fs (getArchiveDir w ident) of
        (Some err, fs') \<Rightarrow> (ErrorJson 500 ''Failed to delete archive'', archives, fs')
      | (None, fs') \<Rightarrow>
          (MessageJson ''Archive deleted successfully'',
           takeWhile (\<lambda>a. archiveId a \<noteq> ident) archives
             @ tl (dropWhile (\<lambda>a. archiveId a \<noteq> ident) archives),
           fs'))"
proof -
  from assms have "findIndex (\<lambda>a. archiveId a = ident) archives \<noteq> None"
    by (auto simp: findIndex_None)
  then obtain i where i: "findIndex (\<lambda>a. archiveId a = ident) archives = Some i" by blast
  from findIndex_Some [OF i] i show ?thesis
    by (simp add: deleteArchive_def split: prod.splits option.splits)
qed

text \<open>
  Claim C9, as amended.  Deleting an id that is not in the index answers 404 and leaves
  the index and the files as they were, whatever the removal primitive.  Deleting an
  archive that is in the index, when its directory exists: the answer is the success
  message, the first record with this id is taken out of the index, and no path at or
  below the directory is left.  When its directory does not exist, the removal fails,
  the answer is the server error and the index is unchanged.
\<close>

theorem delete_archive:
  "(ident \<notin> archiveId ` set archives \<longrightarrow>
      deleteArchive rm w ident archives fs0 = (ErrorJson 404 ''Archive not found'', archives, fs0))
   \<and> (ident \<in> archiveId ` set archives \<and> getArchiveDir w ident \<in> set fs \<longrightarrow>
      deleteArchive rmdirNode w ident archives fs =
        (MessageJson ''Archive deleted successfully'',
         takeWhile (\<lambda>a. archiveId a \<noteq> ident) archives
           @ tl (dropWhile (\<lambda>a. archiveId a \<noteq> ident) archives),
         filter (\<lambda>p. \<not> below (getArchiveDir w ident) p) fs))
   \<and> (ident \<in> archiveId ` set archives \<and> getArchiveDir w ident \<notin> set fs \<longrightarrow>
      deleteArchive rmdirNode w ident archives fs =
        (ErrorJson 500 ''Failed to delete archive'', archives, fs))"
  by (simp add: deleteArchive_missing deleteArchive_found rmdirNode_def)

theorem delete_archive_witness:
  "deleteArchive rmdirNode site ''ffff'' [siteArchive] siteFiles =
     (ErrorJson 404 ''Archive not found'', [siteArchive], siteFiles)
   \<and> deleteArchive rmdirNode site ''0123456789abcdef0123456789abcdef'' [siteArchive] siteFiles =
     (MessageJson ''Archive deleted successfully'', [],
      [''/srv/archives'', ''/srv/archives/0123456789abcdef0123456789abcdefg''])
   \<and> deleteArchive rmdirNode site ''0123456789abcdef0123456789abcdef'' [siteArchive] [''/srv/archives''] =
     (ErrorJson 500 ''Failed to delete archive'', [siteArchive], [''/srv/archives''])"
proof -
  let ?i = "''0123456789abcdef0123456789abcdef''"
  have d: "getArchiveDir site ?i = siteDir"
    by (simp add: getArchiveDir_def site_def siteDir_def)
  have 1: "''ffff'' \<notin> archiveId ` set [siteArchive]" by (simp add: siteArchive_def)
  have 2: "?i \<in> archiveId ` set [siteArchive]" by (simp add: siteArchive_def)
  have 3: "getArchiveDir site ?i \<in> set siteFiles" unfolding d by (simp add: siteDir_def siteFiles_def)
  have 4: "getArchiveDir site ?i \<notin> set [''/srv/archives'']" unfolding d by (simp add: siteDir_def)
  have f: "filter (\<lambda>p. \<not> below (getArchiveDir site ?i) p) siteFiles =
      [''/srv/archives'', ''/srv/archives/0123456789abcdef0123456789abcdefg'']"
    unfolding d by (simp add: siteDir_def siteFiles_def below_def startsWith_def)
  have t: "takeWhile (\<lambda>a. archiveId a \<noteq> ?i) [siteArchive]
           @ tl (dropWhile (\<lambda>a. archiveId a \<noteq> ?i) [siteArchive]) = []"
    by (simp add: siteArchive_def)
  from delete_archive [of "''ffff''" "[siteArchive]" rmdirNode site siteFiles siteFiles] 1
  have a: "deleteArchive rmdirNode site ''ffff'' [siteArchive] siteFiles =
     (ErrorJson 404 ''Archive not found'', [siteArchive], siteFiles)" by blast
  from delete_archive [of ?i "[siteArchive]" rmdirNode site siteFiles siteFiles] 2 3
  have b: "deleteArchive rmdirNode site ?i [siteArchive] siteFiles =
     (MessageJson ''Archive deleted successfully'', [],
      [''/srv/archives'', ''/srv/archives/0123456789abcdef0123456789abcdefg''])"
    unfolding f t by blast
  from delete_archive [of ?i "[siteArchive]" rmdirNode site "[''/srv/archives'']" "[''/srv/archives'']"] 2 4
  have c: "deleteArchive rmdirNode site ?i [siteArchive] [''/srv/archives''] =
     (ErrorJson 500 ''Failed to delete archive'', [siteArchive], [''/srv/archives''])" by blast
  from a b c show ?thesis by blast
qed

text \<open>
  The claim as first stated has the request succeed when the directory is already
  absent.  With the archive of the sample site in the index and no directory for it, the
  answer is the server error, and the record stays.
\<close>

theorem delete_absent_dir_counterexample:
  "archiveId siteArchive = ''0123456789abcdef0123456789abcdef''
   \<and> getArchiveDir site ''0123456789abcdef0123456789abcdef'' \<notin> set [''/srv/archives'']
   \<and> fst (deleteArchive rmdirNode site ''0123456789abcdef0123456789abcdef'' [siteArchive]
            [''/srv/archives'']) = ErrorJson 500 ''Failed to delete archive''
   \<and> fst (snd (deleteArchive rmdirNode site ''0123456789abcdef0123456789abcdef'' [siteArchive]
            [''/srv/archives''])) = [siteArchive]"
  by (simp add: deleteArchive_def rmdirNode_def getArchiveDir_def site_def siteArchive_def)

text \<open>
  Claim C10.  When the removal step throws while an archive that is in the index is
  deleted, the answer is the server error and the list of archives is unchanged.
\<close>

theorem delete_failure_keeps_record:
  "ident \<in> archiveId ` set archives \<Longrightarrow> rm fs (getArchiveDir w ident) = (Some err, fs')
   \<Longrightarrow> deleteArchive rm w ident archives fs =
         (ErrorJson 500 ''Failed to delete archive'', archives, fs')"
  by (simp add: deleteArchive_found)

theorem delete_failure_keeps_record_witness:
  "''0123456789abcdef0123456789abcdef'' \<in> archiveId ` set [siteArchive]
   \<and> denyRm siteFiles (getArchiveDir site ''0123456789abcdef0123456789abcdef'') = (Some EACCES, siteFiles)
   \<and> deleteArchive denyRm site ''0123456789abcdef0123456789abcdef'' [siteArchive] siteFiles =
       (ErrorJson 500 ''Failed to delete archive'', [siteArchive], siteFiles)"
proof -
  have 1: "''0123456789abcdef0123456789abcdef'' \<in> archiveId ` set [siteArchive]"
    by (simp add: siteArchive_def)
  have 2: "denyRm siteFiles (getArchiveDir site ''0123456789abcdef0123456789abcdef'') =
      (Some EACCES, siteFiles)"
    by (simp add: denyRm_def)
  from delete_failure_keeps_record
      [of "''0123456789abcdef0123456789abcdef''" "[siteArchive]" denyRm siteFiles site EACCES siteFiles]
    1 2 show ?thesis by blast
qed

end
